theory Spec2Isabelle
  imports Complex_Main "HOL-Library.Multiset"
begin

section \<open>Errors\<close>

text \<open>
  The exceptions the modelled Python code can raise. \<open>AssertionError\<close> is what a failed
  \<^verbatim>\<open>assert\<close> raises (assertions enabled, as in a default interpreter); the specification
  calls this kind of failure \<open>InvalidInput\<close>. \<open>IndexError\<close> is a list read or write out of
  range, \<open>KeyError\<close> a missing dictionary key, \<open>AttributeError\<close> a missing attribute of an
  object, \<open>TypeError\<close> an attribute holding a value of an unexpected shape, and
  \<open>StopIteration\<close> an exhausted iterator.
\<close>

datatype error = AssertionError | IndexError | KeyError | AttributeError | TypeError | StopIteration

section \<open>scheduler.py: the central clock\<close>

text \<open>
  \<^verbatim>\<open>itertools.cycle(iterable)\<close> of the Python standard library: it returns the elements of
  the iterable while saving a copy of each; once the iterable is exhausted it returns the
  elements of the saved copy, repeating indefinitely. \<open>cy_it\<close> is the underlying list
  iterator (the elements it has still to give, \<open>None\<close> once it has been dropped),
  \<open>cy_saved\<close> the saved copy, \<open>cy_index\<close> the position in the saved copy.
\<close>

record cycle_state =
  cy_it :: "int list option"
  cy_saved :: "int list"
  cy_index :: nat

definition itertools_cycle :: "int list \<Rightarrow> cycle_state" where
  "itertools_cycle xs = \<lparr>cy_it = Some xs, cy_saved = [], cy_index = 0\<rparr>"

definition cycle_next :: "cycle_state \<Rightarrow> (error + int) \<times> cycle_state" where
  "cycle_next c =
     (case cy_it c of
        Some (x # rest) \<Rightarrow> (Inr x, c\<lparr>cy_it := Some rest, cy_saved := cy_saved c @ [x]\<rparr>)
      | _ \<Rightarrow>
         (let c1 = c\<lparr>cy_it := None\<rparr> in
          if cy_saved c1 = [] then (Inl StopIteration, c1)
          else (Inr (cy_saved c1 ! cy_index c1),
                c1\<lparr>cy_index := (if length (cy_saved c1) \<le> cy_index c1 + 1 then 0
                                 else cy_index c1 + 1)\<rparr>)))"

text \<open>
  \<^verbatim>\<open>class CentralClock\<close>: the identifier list and the cycle over it (the attribute
  \<^verbatim>\<open>_cycle\<close>).
\<close>

record clock =
  agent_ids :: "int list"
  cycle :: cycle_state

text \<open>\<^verbatim>\<open>CentralClock.__init__\<close>: a copy of the list, and a fresh cycle over the copy.\<close>

definition CentralClock :: "int list \<Rightarrow> clock" where
  "CentralClock ids = \<lparr>agent_ids = ids, cycle = itertools_cycle ids\<rparr>"

text \<open>\<^verbatim>\<open>CentralClock.__next__\<close>: \<^verbatim>\<open>next(self._cycle)\<close>; the result and the clock afterwards.\<close>

definition clock_next :: "clock \<Rightarrow> (error + int) \<times> clock" where
  "clock_next c = (case cycle_next (cycle c) of (r, cy) \<Rightarrow> (r, c\<lparr>cycle := cy\<rparr>))"

text \<open>
  \<^verbatim>\<open>CentralClock.shuffle(new_order)\<close>. With an explicit order the only check is the
  assertion \<^verbatim>\<open>set(new_order) == set(self.agent_ids)\<close>. With \<^verbatim>\<open>None\<close> the list is
  shuffled by \<^verbatim>\<open>random.shuffle\<close>, whose outcome is the parameter \<open>rnd\<close>. Both paths end
  with a fresh cycle over the new list.
\<close>

definition shuffle :: "(int list \<Rightarrow> int list) \<Rightarrow> clock \<Rightarrow> int list option \<Rightarrow> error + clock" where
  "shuffle rnd c new_order =
     (case new_order of
        Some order \<Rightarrow>
          if set order = set (agent_ids c)
          then Inr (c\<lparr>agent_ids := order, cycle := itertools_cycle order\<rparr>)
          else Inl AssertionError
      | None \<Rightarrow>
          (let ids = rnd (agent_ids c)
           in Inr (c\<lparr>agent_ids := ids, cycle := itertools_cycle ids\<rparr>)))"

text \<open>The results of \<open>n\<close> successive calls of \<^verbatim>\<open>__next__\<close>, in order, and the clock after them.\<close>

fun next_calls :: "nat \<Rightarrow> clock \<Rightarrow> (error + int) list \<times> clock" where
  "next_calls 0 c = ([], c)"
| "next_calls (Suc n) c =
     (case clock_next c of (r, c1) \<Rightarrow> (case next_calls n c1 of (rs, c2) \<Rightarrow> (r # rs, c2)))"

text \<open>The result of the call number \<open>k\<close> (counted from 0) made on the clock \<open>c\<close>.\<close>

definition kth_call :: "nat \<Rightarrow> clock \<Rightarrow> error + int" where
  "kth_call k c = fst (clock_next (snd (next_calls k c)))"

text \<open>
  The state of a cycle over \<open>ids\<close> after \<open>j\<close> elements have been taken from it: used to
  state the invariant of the clock.
\<close>

definition at_phase :: "int list \<Rightarrow> nat \<Rightarrow> cycle_state" where
  "at_phase ids j =
     (if j \<le> length ids then \<lparr>cy_it = Some (drop j ids), cy_saved = take j ids, cy_index = 0\<rparr>
      else \<lparr>cy_it = None, cy_saved = ids, cy_index = j mod length ids\<rparr>)"

section \<open>gridworld/__init__.py: the grid environment\<close>

text \<open>
  A position is a Python list \<^verbatim>\<open>[row, col]\<close> of two integers; it is modelled as a pair.
  Every position the environment stores is a fresh copy (\<^verbatim>\<open>.copy()\<close>), so no two fields
  share a list. The per-agent flags \<open>carrying\<close> and \<open>directions\<close> are integers as in the
  source: \<open>directions\<close> holds 0 for the leg from A to B (OutboundAtoB) and 1 for the leg
  from B to A (ReturnBtoA). Rewards are Python floats; they are modelled as reals (the
  only arithmetic on a per-agent reward is one addition to \<^verbatim>\<open>0.0\<close>).
\<close>

type_synonym pos = "int \<times> int"

record env =
  grid_size :: int
  num_agents :: int
  collision_penalty :: real
  delivery_reward :: real
  location_A :: pos
  location_B :: pos
  agent_positions :: "pos list"
  carrying :: "int list"
  directions :: "int list"
  steps :: int
  total_reward :: real
  total_collisions :: int
  total_deliveries :: int

text \<open>
  \<^verbatim>\<open>reset\<close> draws positions from the random generator. The draws are an explicit input:
  the list of the positions \<^verbatim>\<open>_random_position()\<close> returns, in order. The first is
  \<open>location_A\<close>; \<open>location_B\<close> is the next draw, redrawn \<^verbatim>\<open>while location_A == location_B\<close>.
  \<open>None\<close> says that the loop has not ended within the draws given.
\<close>

fun draw_location_B :: "pos \<Rightarrow> pos list \<Rightarrow> pos option" where
  "draw_location_B a [] = None"
| "draw_location_B a (b # draws) = (if a = b then draw_location_B a draws else Some b)"

definition reset :: "env \<Rightarrow> pos list \<Rightarrow> env option" where
  "reset e draws =
     (case draws of
        [] \<Rightarrow> None
      | a # rest \<Rightarrow>
         (case draw_location_B a rest of
            None \<Rightarrow> None
          | Some b \<Rightarrow>
              Some (e\<lparr>location_A := a, location_B := b,
                      agent_positions := replicate (nat (num_agents e)) a,
                      carrying := replicate (nat (num_agents e)) 0,
                      directions := replicate (nat (num_agents e)) 0,
                      steps := 0, total_reward := 0, total_collisions := 0,
                      total_deliveries := 0\<rparr>)))"

text \<open>
  \<^verbatim>\<open>GridWorldEnv.__init__\<close>: the four configuration fields, then \<^verbatim>\<open>reset\<close>, which assigns
  every other field (their values before it are immaterial).
\<close>

definition GridWorldEnv :: "int \<Rightarrow> int \<Rightarrow> real \<Rightarrow> real \<Rightarrow> pos list \<Rightarrow> env option" where
  "GridWorldEnv gs n cp dr draws =
     reset \<lparr>grid_size = gs, num_agents = n, collision_penalty = cp, delivery_reward = dr,
            location_A = (0, 0), location_B = (0, 0), agent_positions = [], carrying = [],
            directions = [], steps = 0, total_reward = 0, total_collisions = 0,
            total_deliveries = 0\<rparr> draws"

text \<open>
  \<^verbatim>\<open>_get_next_position\<close>: the action codes are those of \<^verbatim>\<open>class Action(IntEnum)\<close>, NORTH = 0,
  SOUTH = 1, WEST = 2, EAST = 3. There is no final \<^verbatim>\<open>else\<close>: any other code leaves the
  copy of the position as it is.
\<close>

definition get_next_position :: "env \<Rightarrow> pos \<Rightarrow> int \<Rightarrow> pos" where
  "get_next_position e current_pos action =
     (case current_pos of (r, c) \<Rightarrow>
        if action = 0 \<and> r > 0 then (r - 1, c)
        else if action = 1 \<and> r < grid_size e - 1 then (r + 1, c)
        else if action = 2 \<and> c > 0 then (r, c - 1)
        else if action = 3 \<and> c < grid_size e - 1 then (r, c + 1)
        else (r, c))"

text \<open>
  The first loop of \<^verbatim>\<open>step\<close>, over \<^verbatim>\<open>enumerate(actions)\<close>: the candidate position of each
  agent. Reading \<^verbatim>\<open>self.agent_positions[agent_idx]\<close> out of range raises \<open>IndexError\<close>.
\<close>

fun next_positions :: "env \<Rightarrow> (nat \<times> int) list \<Rightarrow> error + pos list" where
  "next_positions e [] = Inr []"
| "next_positions e ((agent_idx, action) # rest) =
     (if agent_idx < length (agent_positions e)
      then (case next_positions e rest of
              Inl err \<Rightarrow> Inl err
            | Inr ps \<Rightarrow> Inr (get_next_position e (agent_positions e ! agent_idx) action # ps))
      else Inl IndexError)"

text \<open>
  \<^verbatim>\<open>_detect_collisions\<close>, first loop: the dictionary \<^verbatim>\<open>pos_to_agents\<close>, in insertion order,
  as an association list from a candidate position to the agents that target it.
\<close>

fun add_agent :: "pos \<Rightarrow> nat \<Rightarrow> (pos \<times> nat list) list \<Rightarrow> (pos \<times> nat list) list" where
  "add_agent p i [] = [(p, [i])]"
| "add_agent p i ((q, agents) # m) =
     (if q = p then (q, agents @ [i]) # m else (q, agents) # add_agent p i m)"

fun build_pos_to_agents ::
  "(nat \<times> pos) list \<Rightarrow> (pos \<times> nat list) list \<Rightarrow> (pos \<times> nat list) list" where
  "build_pos_to_agents [] m = m"
| "build_pos_to_agents ((agent_idx, p) # rest) m = build_pos_to_agents rest (add_agent p agent_idx m)"

text \<open>
  The inner loop over the agents of one group: the two flags \<^verbatim>\<open>has_A_to_B\<close> and
  \<^verbatim>\<open>has_B_to_A\<close>. A direction 0 sets the first, any other value the second.
\<close>

fun scan_group :: "int list \<Rightarrow> nat list \<Rightarrow> bool \<Rightarrow> bool \<Rightarrow> error + (bool \<times> bool)" where
  "scan_group dirs [] has_A_to_B has_B_to_A = Inr (has_A_to_B, has_B_to_A)"
| "scan_group dirs (agent_idx # agents) has_A_to_B has_B_to_A =
     (if agent_idx < length dirs
      then (if dirs ! agent_idx = 0 then scan_group dirs agents True has_B_to_A
            else scan_group dirs agents has_A_to_B True)
      else Inl IndexError)"

text \<open>The second loop, over the items of the dictionary, collecting the set \<^verbatim>\<open>collisions\<close>.\<close>

fun check_groups :: "env \<Rightarrow> (pos \<times> nat list) list \<Rightarrow> nat set \<Rightarrow> error + nat set" where
  "check_groups e [] collisions = Inr collisions"
| "check_groups e ((pos_tuple, agents) # items) collisions =
     (if pos_tuple = location_A e \<or> pos_tuple = location_B e
      then check_groups e items collisions
      else if length agents \<le> 1 then check_groups e items collisions
      else (case scan_group (directions e) agents False False of
              Inl err \<Rightarrow> Inl err
            | Inr (has_A_to_B, has_B_to_A) \<Rightarrow>
                if has_A_to_B \<and> has_B_to_A
                then check_groups e items (collisions \<union> set agents)
                else check_groups e items collisions))"

definition detect_collisions :: "env \<Rightarrow> pos list \<Rightarrow> error + nat set" where
  "detect_collisions e next_poss =
     check_groups e (build_pos_to_agents (enumerate 0 next_poss) []) {}"

definition is_at_location_A :: "env \<Rightarrow> nat \<Rightarrow> bool" where
  "is_at_location_A e agent_idx \<longleftrightarrow> agent_positions e ! agent_idx = location_A e"

definition is_at_location_B :: "env \<Rightarrow> nat \<Rightarrow> bool" where
  "is_at_location_B e agent_idx \<longleftrightarrow> agent_positions e ! agent_idx = location_B e"

text \<open>
  The body of the update loop of \<^verbatim>\<open>step\<close> for one agent: the environment and the reward
  list after it, or the error raised and the environment as it was left. Every list read
  or write out of range raises \<open>IndexError\<close>; the two site tests are only made after the
  write of the position at the same index has succeeded, and \<^verbatim>\<open>and\<close> reads the direction
  only when the site test holds.
\<close>

definition update_agent ::
  "nat set \<Rightarrow> nat \<Rightarrow> pos \<Rightarrow> env \<Rightarrow> real list \<Rightarrow> env \<times> (error + real list)" where
  "update_agent collisions agent_idx next_pos e rewards =
     (if agent_idx \<in> collisions then
        (if agent_idx < length rewards
         then (e\<lparr>total_collisions := total_collisions e + 1\<rparr>,
               Inr (rewards[agent_idx := rewards ! agent_idx + collision_penalty e]))
         else (e, Inl IndexError))
      else if \<not> agent_idx < length (agent_positions e) then (e, Inl IndexError)
      else
        (let e1 = e\<lparr>agent_positions := (agent_positions e)[agent_idx := next_pos]\<rparr> in
         if is_at_location_A e1 agent_idx \<and> \<not> agent_idx < length (directions e1)
         then (e1, Inl IndexError)
         else if is_at_location_A e1 agent_idx \<and> directions e1 ! agent_idx = 1 then
           (if agent_idx < length (carrying e1)
            then (e1\<lparr>carrying := (carrying e1)[agent_idx := 1],
                     directions := (directions e1)[agent_idx := 0]\<rparr>, Inr rewards)
            else (e1, Inl IndexError))
         else if is_at_location_B e1 agent_idx \<and> \<not> agent_idx < length (directions e1)
         then (e1, Inl IndexError)
         else if is_at_location_B e1 agent_idx \<and> directions e1 ! agent_idx = 0 then
           (if \<not> agent_idx < length (carrying e1) then (e1, Inl IndexError)
            else if carrying e1 ! agent_idx = 1 then
              (if agent_idx < length rewards
               then (e1\<lparr>carrying := (carrying e1)[agent_idx := 0],
                        total_deliveries := total_deliveries e1 + 1,
                        directions := (directions e1)[agent_idx := 1]\<rparr>,
                     Inr (rewards[agent_idx := rewards ! agent_idx + delivery_reward e1]))
               else (e1\<lparr>carrying := (carrying e1)[agent_idx := 0]\<rparr>, Inl IndexError))
            else (e1, Inr rewards))
         else (e1, Inr rewards)))"

text \<open>The update loop, over \<^verbatim>\<open>enumerate(next_positions)\<close>; an error ends it.\<close>

fun update_agents ::
  "nat set \<Rightarrow> (nat \<times> pos) list \<Rightarrow> env \<Rightarrow> real list \<Rightarrow> env \<times> (error + real list)" where
  "update_agents collisions [] e rewards = (e, Inr rewards)"
| "update_agents collisions ((agent_idx, next_pos) # rest) e rewards =
     (case update_agent collisions agent_idx next_pos e rewards of
        (e1, Inl err) \<Rightarrow> (e1, Inl err)
      | (e1, Inr rewards1) \<Rightarrow> update_agents collisions rest e1 rewards1)"

text \<open>
  \<^verbatim>\<open>step(actions)\<close>: the environment after the call, and the error raised or the reward
  list returned. The other components of the returned tuple are read off the new
  environment: the observations and \<^verbatim>\<open>info\<close> copy its fields and \<^verbatim>\<open>done\<close> is always
  \<^verbatim>\<open>False\<close>. The assertion on the length comes first, before any assignment.
\<close>

definition step :: "env \<Rightarrow> int list \<Rightarrow> env \<times> (error + real list)" where
  "step e actions =
     (if int (length actions) \<noteq> num_agents e then (e, Inl AssertionError)
      else
        (let e1 = e\<lparr>steps := steps e + 1\<rparr> in
         case next_positions e1 (enumerate 0 actions) of
           Inl err \<Rightarrow> (e1, Inl err)
         | Inr next_poss \<Rightarrow>
            (let rewards = replicate (nat (num_agents e1)) 0 in
             case detect_collisions e1 next_poss of
               Inl err \<Rightarrow> (e1, Inl err)
             | Inr collisions \<Rightarrow>
                (case update_agents collisions (enumerate 0 next_poss) e1 rewards of
                   (e2, Inl err) \<Rightarrow> (e2, Inl err)
                 | (e2, Inr rewards2) \<Rightarrow>
                     (e2\<lparr>total_reward := total_reward e2 + sum_list rewards2\<rparr>, Inr rewards2)))))"

subsection \<open>Reachable and well-formed environments\<close>

text \<open>
  The environments a caller can hold: the one the constructor returns, and those a
  \<^verbatim>\<open>reset\<close> or a \<^verbatim>\<open>step\<close> call leaves behind (a failing \<^verbatim>\<open>step\<close> included). The random
  generator only draws cells of the grid.
\<close>

definition in_grid :: "int \<Rightarrow> pos \<Rightarrow> bool" where
  "in_grid gs p \<longleftrightarrow> 0 \<le> fst p \<and> fst p < gs \<and> 0 \<le> snd p \<and> snd p < gs"

inductive reachable :: "env \<Rightarrow> bool" where
  reachable_init:
    "list_all (in_grid gs) draws \<Longrightarrow> GridWorldEnv gs n cp dr draws = Some e \<Longrightarrow> reachable e"
| reachable_reset:
    "reachable e \<Longrightarrow> list_all (in_grid (grid_size e)) draws \<Longrightarrow> reset e draws = Some e1
       \<Longrightarrow> reachable e1"
| reachable_step:
    "reachable e \<Longrightarrow> step e actions = (e1, r) \<Longrightarrow> reachable e1"

text \<open>
  The environment is well formed when its three per-agent lists have \<open>num_agents\<close>
  entries, as \<^verbatim>\<open>reset\<close> builds them.
\<close>

definition wf_env :: "env \<Rightarrow> bool" where
  "wf_env e \<longleftrightarrow>
     length (agent_positions e) = nat (num_agents e)
     \<and> length (carrying e) = nat (num_agents e)
     \<and> length (directions e) = nat (num_agents e)"

subsection \<open>The collision rule of the specification\<close>

text \<open>
  The legs of the specification, read off a direction flag the way \<^verbatim>\<open>_detect_collisions\<close>
  reads it: 0 is the leg from A to B, anything else the leg from B to A.
\<close>

datatype leg = OutboundAtoB | ReturnBtoA

definition leg_of :: "int \<Rightarrow> leg" where
  "leg_of d = (if d = 0 then OutboundAtoB else ReturnBtoA)"

text \<open>
  The collision rule in the words of the specification: agents are grouped by identical
  candidate position; an agent is collided when the cell of its group is neither site and
  the group holds an agent on each leg.
\<close>

definition group_of :: "pos list \<Rightarrow> pos \<Rightarrow> nat list" where
  "group_of next_poss p = filter (\<lambda>j. next_poss ! j = p) [0..<length next_poss]"

definition spec_collided :: "env \<Rightarrow> pos list \<Rightarrow> nat \<Rightarrow> bool" where
  "spec_collided e next_poss i \<longleftrightarrow>
     i < length next_poss
     \<and> next_poss ! i \<noteq> location_A e \<and> next_poss ! i \<noteq> location_B e
     \<and> list_ex (\<lambda>j. leg_of (directions e ! j) = OutboundAtoB) (group_of next_poss (next_poss ! i))
     \<and> list_ex (\<lambda>k. leg_of (directions e ! k) = ReturnBtoA) (group_of next_poss (next_poss ! i))"

text \<open>The agents the dictionary lists for a position (none when the key is absent).\<close>

definition agents_of :: "(pos \<times> nat list) list \<Rightarrow> pos \<Rightarrow> nat set" where
  "agents_of m q = (case map_of m q of None \<Rightarrow> {} | Some agents \<Rightarrow> set agents)"

text \<open>The test the second loop of \<^verbatim>\<open>_detect_collisions\<close> makes on one item of the dictionary.\<close>

definition group_collides :: "env \<Rightarrow> pos \<times> nat list \<Rightarrow> bool" where
  "group_collides e g \<longleftrightarrow>
     fst g \<noteq> location_A e \<and> fst g \<noteq> location_B e \<and> 1 < length (snd g)
     \<and> (\<exists>i \<in> set (snd g). directions e ! i = 0) \<and> (\<exists>i \<in> set (snd g). directions e ! i \<noteq> 0)"

text \<open>The same rule over indices: some agent with direction 0 and some agent with another
  direction target the cell of agent \<open>i\<close>, which is not a site.\<close>

definition head_on :: "env \<Rightarrow> pos list \<Rightarrow> nat \<Rightarrow> bool" where
  "head_on e nps i \<longleftrightarrow>
     i < length nps \<and> nps ! i \<noteq> location_A e \<and> nps ! i \<noteq> location_B e
     \<and> (\<exists>j < length nps. nps ! j = nps ! i \<and> directions e ! j = 0)
     \<and> (\<exists>k < length nps. nps ! k = nps ! i \<and> directions e ! k \<noteq> 0)"

subsection \<open>The closed form of a tick\<close>

text \<open>
  What one tick does to agent \<open>i\<close>, as functions of the environment before the update
  loop, the set of collided agents and the candidate positions.
\<close>

definition picks_up :: "env \<Rightarrow> pos list \<Rightarrow> nat \<Rightarrow> bool" where
  "picks_up e nps i \<longleftrightarrow> nps ! i = location_A e \<and> directions e ! i = 1"

definition delivers :: "env \<Rightarrow> pos list \<Rightarrow> nat \<Rightarrow> bool" where
  "delivers e nps i \<longleftrightarrow> nps ! i = location_B e \<and> directions e ! i = 0 \<and> carrying e ! i = 1"

definition new_position :: "env \<Rightarrow> nat set \<Rightarrow> pos list \<Rightarrow> nat \<Rightarrow> pos" where
  "new_position e cs nps i = (if i \<in> cs then agent_positions e ! i else nps ! i)"

definition new_carrying :: "env \<Rightarrow> nat set \<Rightarrow> pos list \<Rightarrow> nat \<Rightarrow> int" where
  "new_carrying e cs nps i =
     (if i \<in> cs then carrying e ! i
      else if picks_up e nps i then 1
      else if delivers e nps i then 0
      else carrying e ! i)"

definition new_direction :: "env \<Rightarrow> nat set \<Rightarrow> pos list \<Rightarrow> nat \<Rightarrow> int" where
  "new_direction e cs nps i =
     (if i \<in> cs then directions e ! i
      else if picks_up e nps i then 0
      else if delivers e nps i then 1
      else directions e ! i)"

definition reward_of :: "env \<Rightarrow> nat set \<Rightarrow> pos list \<Rightarrow> nat \<Rightarrow> real" where
  "reward_of e cs nps i =
     (if i \<in> cs then collision_penalty e
      else if \<not> picks_up e nps i \<and> delivers e nps i then delivery_reward e
      else 0)"

text \<open>A list whose first \<open>k\<close> entries have been recomputed by \<open>f\<close>.\<close>

definition splice :: "(nat \<Rightarrow> 'a) \<Rightarrow> nat \<Rightarrow> 'a list \<Rightarrow> 'a list" where
  "splice f k old = map f [0..<k] @ drop k old"

text \<open>The environment and the reward list after the update loop has handled the agents below \<open>k\<close>.\<close>

definition tick_state :: "env \<Rightarrow> nat set \<Rightarrow> pos list \<Rightarrow> nat \<Rightarrow> env" where
  "tick_state e cs nps k =
     e\<lparr>agent_positions := splice (new_position e cs nps) k (agent_positions e),
       carrying := splice (new_carrying e cs nps) k (carrying e),
       directions := splice (new_direction e cs nps) k (directions e),
       total_collisions := total_collisions e + int (length (filter (\<lambda>i. i \<in> cs) [0..<k])),
       total_deliveries := total_deliveries e
          + int (length (filter (\<lambda>i. i \<notin> cs \<and> \<not> picks_up e nps i \<and> delivers e nps i) [0..<k]))\<rparr>"

definition tick_rewards :: "env \<Rightarrow> nat set \<Rightarrow> pos list \<Rightarrow> nat \<Rightarrow> nat \<Rightarrow> real list" where
  "tick_rewards e cs nps k n = splice (reward_of e cs nps) k (replicate n 0)"

text \<open>The candidate positions of a tick.\<close>

definition candidates :: "env \<Rightarrow> int list \<Rightarrow> pos list" where
  "candidates e actions =
     map (\<lambda>i. get_next_position e (agent_positions e ! i) (actions ! i)) [0..<length actions]"

text \<open>The environment after a successful tick.\<close>

definition after_tick :: "env \<Rightarrow> nat set \<Rightarrow> pos list \<Rightarrow> env" where
  "after_tick e cs nps =
     (tick_state (e\<lparr>steps := steps e + 1\<rparr>) cs nps (length nps))
       \<lparr>total_reward := total_reward e + sum_list (map (reward_of e cs nps) [0..<length nps])\<rparr>"

text \<open>The collided agents of a tick (the empty set if the detection raises).\<close>

definition collided :: "env \<Rightarrow> int list \<Rightarrow> nat set" where
  "collided e actions =
     (case detect_collisions e (candidates e actions) of Inr cs \<Rightarrow> cs | Inl err \<Rightarrow> {})"

text \<open>
  The invariant of the reachable environments: well formed, nobody carries, every
  direction is 0, and the three reward and event counters are 0.
\<close>

definition idle :: "env \<Rightarrow> bool" where
  "idle e \<longleftrightarrow>
     wf_env e
     \<and> carrying e = replicate (nat (num_agents e)) 0
     \<and> directions e = replicate (nat (num_agents e)) 0
     \<and> total_reward e = 0 \<and> total_collisions e = 0 \<and> total_deliveries e = 0"

subsection \<open>Example environments\<close>

text \<open>
  An environment on the default 5 by 5 grid with four agents, used to run the model:
  agent 0 (outbound, at (1,0)) and agent 1 (returning, at (1,2)) are two cells apart,
  agent 2 (returning) stands next to site A and agent 3 (outbound, carrying) next to
  site B.
\<close>

definition example_env :: env where
  "example_env =
     \<lparr>grid_size = 5, num_agents = 4, collision_penalty = - 10, delivery_reward = 1,
      location_A = (0, 0), location_B = (4, 4),
      agent_positions = [(1, 0), (1, 2), (0, 1), (4, 3)],
      carrying = [1, 0, 0, 1], directions = [0, 1, 1, 0],
      steps = 0, total_reward = 0, total_collisions = 0, total_deliveries = 0\<rparr>"

text \<open>The environment \<^verbatim>\<open>step([3, 2, 2, 3])\<close> leaves behind from \<open>example_env\<close>.\<close>

definition example_after :: env where
  "example_after =
     example_env\<lparr>agent_positions := [(1, 0), (1, 2), (0, 0), (4, 4)],
        carrying := [1, 0, 1, 0], directions := [0, 1, 0, 1], steps := 1,
        total_reward := - 19, total_collisions := 2, total_deliveries := 1\<rparr>"

text \<open>The environment the constructor returns for the default configuration and the draws
  (0,0), (0,0), (4,4): site B is drawn twice.\<close>

definition example_initial :: env where
  "example_initial =
     \<lparr>grid_size = 5, num_agents = 4, collision_penalty = - 10, delivery_reward = 1,
      location_A = (0, 0), location_B = (4, 4),
      agent_positions = [(0, 0), (0, 0), (0, 0), (0, 0)],
      carrying = [0, 0, 0, 0], directions = [0, 0, 0, 0],
      steps = 0, total_reward = 0, total_collisions = 0, total_deliveries = 0\<rparr>"

section \<open>sensors.py: the opposite-direction occupancy sensor\<close>

text \<open>
  The sensor takes any object \<^verbatim>\<open>env\<close> and reads two attributes of it. A Python object is
  modelled by its attribute lookup: \<open>None\<close> for a name the object does not define, which
  raises \<open>AttributeError\<close>. \<open>StatesAttr\<close> is a dictionary from agent identifiers to agent
  states, in insertion order; an agent state is the dictionary with the keys
  \<^verbatim>\<open>'position'\<close> and \<^verbatim>\<open>'direction'\<close>.

  The value under \<^verbatim>\<open>'position'\<close> is a sequence of two integers, and Python tells its two
  shapes apart: the tuple \<^verbatim>\<open>(row, col)\<close> of \<^verbatim>\<open>config.Pos\<close>, or the list \<^verbatim>\<open>[row, col]\<close>
  that \<^verbatim>\<open>GridWorldEnv\<close> stores and \<^verbatim>\<open>_get_observations\<close> hands out. Both unpack with
  \<^verbatim>\<open>x, y = pos\<close>, but a list is never equal to a tuple.
\<close>

datatype py_position = TuplePos int int | ListPos int int

fun unpack :: "py_position \<Rightarrow> pos" where
  "unpack (TuplePos x y) = (x, y)"
| "unpack (ListPos x y) = (x, y)"


record agent_state =
  position :: py_position
  direction :: int

datatype attr =
    IntAttr int
  | FloatAttr real
  | PosAttr pos
  | PosListAttr "pos list"
  | IntListAttr "int list"
  | StatesAttr "(int \<times> agent_state) list"
  | MethodAttr

type_synonym py_object = "string \<Rightarrow> attr option"

definition getattr :: "py_object \<Rightarrow> string \<Rightarrow> error + attr" where
  "getattr obj name = (case obj name of None \<Rightarrow> Inl AttributeError | Some v \<Rightarrow> Inr v)"

text \<open>
  The attributes of a \<^verbatim>\<open>GridWorldEnv\<close> instance: the thirteen fields \<^verbatim>\<open>__init__\<close> and
  \<^verbatim>\<open>reset\<close> assign, and the methods of the class. Positions are lists there.
\<close>

definition GridWorldEnv_attrs :: "env \<Rightarrow> py_object" where
  "GridWorldEnv_attrs e =
     map_of
       [(''grid_size'', IntAttr (grid_size e)),
        (''num_agents'', IntAttr (num_agents e)),
        (''collision_penalty'', FloatAttr (collision_penalty e)),
        (''delivery_reward'', FloatAttr (delivery_reward e)),
        (''location_A'', PosAttr (location_A e)),
        (''location_B'', PosAttr (location_B e)),
        (''agent_positions'', PosListAttr (agent_positions e)),
        (''carrying'', IntListAttr (carrying e)),
        (''directions'', IntListAttr (directions e)),
        (''steps'', IntAttr (steps e)),
        (''total_reward'', FloatAttr (total_reward e)),
        (''total_collisions'', IntAttr (total_collisions e)),
        (''total_deliveries'', IntAttr (total_deliveries e)),
        (''__init__'', MethodAttr), (''reset'', MethodAttr), (''step'', MethodAttr),
        (''_random_position'', MethodAttr), (''_get_next_position'', MethodAttr),
        (''_detect_collisions'', MethodAttr), (''_is_at_location_A'', MethodAttr),
        (''_is_at_location_B'', MethodAttr), (''_get_observations'', MethodAttr),
        (''render'', MethodAttr)]"

text \<open>
  \<^verbatim>\<open>neighbour_coords\<close>: the eight cells around a position, in the order of the source. It
  unpacks its argument and builds eight tuples; a pair of the result stands for a tuple.
\<close>

definition neighbour_coords :: "py_position \<Rightarrow> pos list" where
  "neighbour_coords p =
     (case unpack p of (x, y) \<Rightarrow>
        [(x - 1, y - 1), (x - 1, y), (x - 1, y + 1),
         (x, y - 1), (x, y + 1),
         (x + 1, y - 1), (x + 1, y), (x + 1, y + 1)])"

text \<open>
  The inner loop of \<^verbatim>\<open>opp_dir_mask\<close> over \<^verbatim>\<open>agent_states.items()\<close>: whether it reaches
  \<^verbatim>\<open>mask[i] = True\<close> before it ends. The test \<^verbatim>\<open>other_pos == (nx, ny)\<close> compares the stored
  position with a tuple, so it holds only for a stored tuple with these coordinates.
\<close>

fun scan_others :: "(int \<times> agent_state) list \<Rightarrow> int \<Rightarrow> int \<Rightarrow> pos \<Rightarrow> bool" where
  "scan_others [] agent_id current_dir_flag (nx, ny) = False"
| "scan_others ((other_id, other_state) # rest) agent_id current_dir_flag (nx, ny) =
     (if other_id = agent_id then scan_others rest agent_id current_dir_flag (nx, ny)
      else if position other_state = TuplePos nx ny \<and> direction other_state \<noteq> current_dir_flag
      then True
      else scan_others rest agent_id current_dir_flag (nx, ny))"

text \<open>
  The outer loop over \<^verbatim>\<open>enumerate(neighbours)\<close>, updating the list \<^verbatim>\<open>mask\<close>. The grid size
  is compared as a number (an \<^verbatim>\<open>int\<close> or a \<^verbatim>\<open>float\<close>).
\<close>

fun mask_loop ::
  "(int \<times> agent_state) list \<Rightarrow> real \<Rightarrow> int \<Rightarrow> int \<Rightarrow> (nat \<times> pos) list \<Rightarrow> bool list \<Rightarrow> bool list" where
  "mask_loop agent_states gs agent_id current_dir_flag [] bits = bits"
| "mask_loop agent_states gs agent_id current_dir_flag ((i, (nx, ny)) # rest) bits =
     (if \<not> (0 \<le> nx \<and> real_of_int nx < gs \<and> 0 \<le> ny \<and> real_of_int ny < gs)
      then mask_loop agent_states gs agent_id current_dir_flag rest (bits[i := False])
      else if scan_others agent_states agent_id current_dir_flag (nx, ny)
      then mask_loop agent_states gs agent_id current_dir_flag rest (bits[i := True])
      else mask_loop agent_states gs agent_id current_dir_flag rest bits)"

text \<open>
  \<^verbatim>\<open>opp_dir_mask(env, agent_id)\<close>, in the order the source evaluates: \<^verbatim>\<open>env.agent_states\<close>,
  the state of \<^verbatim>\<open>agent_id\<close> (\<open>KeyError\<close> when the dictionary has no such key; the
  specification calls it \<open>NotFound\<close>), the neighbours, \<^verbatim>\<open>env.grid_size\<close>, the loop. The
  function assigns nothing but its local list \<^verbatim>\<open>mask\<close>, so the model returns the mask only.
\<close>

definition opp_dir_mask :: "py_object \<Rightarrow> int \<Rightarrow> error + bool list" where
  "opp_dir_mask env agent_id =
     (case getattr env ''agent_states'' of
        Inl err \<Rightarrow> Inl err
      | Inr (StatesAttr agent_states) \<Rightarrow>
         (case map_of agent_states agent_id of
            None \<Rightarrow> Inl KeyError
          | Some st \<Rightarrow>
             (let neighbours = neighbour_coords (position st) in
              case getattr env ''grid_size'' of
                Inl err \<Rightarrow> Inl err
              | Inr (IntAttr gs) \<Rightarrow>
                  Inr (mask_loop agent_states (real_of_int gs) agent_id (direction st)
                         (enumerate 0 neighbours) (replicate 8 False))
              | Inr (FloatAttr gs) \<Rightarrow>
                  Inr (mask_loop agent_states gs agent_id (direction st)
                         (enumerate 0 neighbours) (replicate 8 False))
              | Inr other \<Rightarrow> Inl TypeError))
      | Inr other \<Rightarrow> Inl TypeError)"










section \<open>Proofs: the scheduler\<close>

lemma cycle_next_at_phase:
  assumes "ids \<noteq> []"
  shows "cycle_next (at_phase ids j) = (Inr (ids ! (j mod length ids)), at_phase ids (Suc j))"
proof -
  consider (first) "j < length ids" | (turn) "j = length ids" | (later) "length ids < j"
    by linarith
  then show ?thesis
  proof cases
    case first
    then have "drop j ids = ids ! j # drop (Suc j) ids"
      by (simp add: Cons_nth_drop_Suc)
    with first show ?thesis
      by (simp add: cycle_next_def at_phase_def take_Suc_conv_app_nth)
  next
    case turn
    have "0 < length ids" using assms by simp
    then have "Suc (length ids) mod length ids = (if length ids \<le> 1 then 0 else 1)"
      by (cases "length ids") (auto simp: mod_Suc)
    with turn assms show ?thesis
      by (cases ids) (auto simp: cycle_next_def at_phase_def Let_def)
  next
    case later
    have "0 < length ids" using assms by simp
    then have lt: "j mod length ids < length ids" by simp
    have "Suc j mod length ids =
        (if length ids \<le> j mod length ids + 1 then 0 else j mod length ids + 1)"
      using lt by (simp add: mod_Suc)
    with later assms show ?thesis
      by (simp add: cycle_next_def at_phase_def Let_def)
  qed
qed

lemma upt_8: "[0..<8] = [0, 1, 2, 3, 4, 5, 6, 7]"
  by code_simp

lemma next_calls_at_phase:
  assumes "ids \<noteq> []" and "cycle c = at_phase ids j"
  shows "next_calls n c =
     (map (\<lambda>k. Inr (ids ! ((j + k) mod length ids))) [0..<n], c\<lparr>cycle := at_phase ids (j + n)\<rparr>)"
  using assms(2)
proof (induction n arbitrary: c j)
  case 0
  then show ?case by simp
next
  case (Suc n)
  have step: "clock_next c = (Inr (ids ! (j mod length ids)), c\<lparr>cycle := at_phase ids (Suc j)\<rparr>)"
    using Suc.prems assms(1) by (simp add: clock_next_def cycle_next_at_phase)
  have "cycle (c\<lparr>cycle := at_phase ids (Suc j)\<rparr>) = at_phase ids (Suc j)" by simp
  from Suc.IH [OF this] step show ?case
    by (simp add: map_upt_Suc del: upt_Suc)
qed

lemma kth_call_at_phase:
  assumes "ids \<noteq> []" and "cycle c = at_phase ids 0"
  shows "kth_call k c = Inr (ids ! (k mod length ids))"
  using next_calls_at_phase [OF assms, of k] assms(1)
  by (simp add: kth_call_def clock_next_def cycle_next_at_phase)

lemma fresh_cycle_phase: "itertools_cycle ids = at_phase ids 0"
  by (simp add: itertools_cycle_def at_phase_def)

lemma snd_next_calls_Suc: "snd (next_calls (Suc n) c) = snd (next_calls n (snd (clock_next c)))"
  by (simp split: prod.splits)

lemma clock_next_agent_ids: "agent_ids (snd (clock_next c)) = agent_ids c"
  by (simp add: clock_next_def split: prod.splits)

lemma next_calls_agent_ids: "agent_ids (snd (next_calls n c)) = agent_ids c"
proof (induction n arbitrary: c)
  case 0
  show ?case by simp
next
  case (Suc n)
  show ?case
    unfolding snd_next_calls_Suc by (simp add: Suc.IH clock_next_agent_ids)
qed

text \<open>
  Claim C10. For a non-empty identifier list the call number \<open>k\<close> (from 0, counted from
  construction) yields \<open>ids ! (k mod length ids)\<close>; after a successful
  \<^verbatim>\<open>shuffle(new_order)\<close>, whatever calls were made before it, the call number \<open>k\<close> yields
  \<open>order ! (k mod length order)\<close>, so the sequence restarts from the first element of the new
  order. The same holds after \<^verbatim>\<open>shuffle()\<close> without an argument, for the order the random
  shuffle left in \<open>agent_ids\<close>. \<^verbatim>\<open>CentralClock([0,1,2,3])\<close> yields 0,1,2,3,0,1,2,3 and, after any number \<open>m\<close> of
  calls, \<^verbatim>\<open>shuffle([3,1,0,2])\<close> succeeds and the next eight calls yield 3,1,0,2,3,1,0,2.
\<close>

theorem scheduler_cycle:
  "(ids \<noteq> [] \<longrightarrow> kth_call k (CentralClock ids) = Inr (ids ! (k mod length ids)))
   \<and> (agent_ids c \<noteq> [] \<and> shuffle rnd c (Some order) = Inr c'
        \<longrightarrow> kth_call k c' = Inr (order ! (k mod length order)))
   \<and> (rnd (agent_ids c) \<noteq> [] \<and> shuffle rnd c None = Inr c'
        \<longrightarrow> agent_ids c' = rnd (agent_ids c)
          \<and> kth_call k c' = Inr (rnd (agent_ids c) ! (k mod length (rnd (agent_ids c)))))
   \<and> fst (next_calls 8 (CentralClock [0, 1, 2, 3])) = map Inr [0, 1, 2, 3, 0, 1, 2, 3]
   \<and> (\<exists>c2. shuffle rnd (snd (next_calls m (CentralClock [0, 1, 2, 3]))) (Some [3, 1, 0, 2]) = Inr c2
        \<and> fst (next_calls 8 c2) = map Inr [3, 1, 0, 2, 3, 1, 0, 2])"
proof (intro conjI impI)
  assume "ids \<noteq> []"
  then show "kth_call k (CentralClock ids) = Inr (ids ! (k mod length ids))"
    by (simp add: kth_call_at_phase CentralClock_def fresh_cycle_phase)
next
  assume a: "agent_ids c \<noteq> [] \<and> shuffle rnd c (Some order) = Inr c'"
  then have eq: "set order = set (agent_ids c)" and c': "c' = c\<lparr>agent_ids := order, cycle := itertools_cycle order\<rparr>"
    by (auto simp: shuffle_def split: if_splits)
  from a eq have "order \<noteq> []" by auto
  then show "kth_call k c' = Inr (order ! (k mod length order))"
    using c' by (simp add: kth_call_at_phase fresh_cycle_phase)
next
  assume "rnd (agent_ids c) \<noteq> [] \<and> shuffle rnd c None = Inr c'"
  then show "agent_ids c' = rnd (agent_ids c)"
    by (auto simp: shuffle_def Let_def)
next
  assume a: "rnd (agent_ids c) \<noteq> [] \<and> shuffle rnd c None = Inr c'"
  then have "c' = c\<lparr>agent_ids := rnd (agent_ids c), cycle := itertools_cycle (rnd (agent_ids c))\<rparr>"
    by (auto simp: shuffle_def Let_def)
  with a show "kth_call k c' = Inr (rnd (agent_ids c) ! (k mod length (rnd (agent_ids c))))"
    by (simp add: kth_call_at_phase fresh_cycle_phase)
next
  have "cycle (CentralClock [0, 1, 2, 3]) = at_phase [0, 1, 2, 3] 0"
    by (simp add: CentralClock_def fresh_cycle_phase)
  from next_calls_at_phase [OF _ this, of 8]
  show "fst (next_calls 8 (CentralClock [0, 1, 2, 3])) = map Inr [0, 1, 2, 3, 0, 1, 2, 3]"
    by (simp add: upt_8 del: upt_Suc)
next
  let ?c = "snd (next_calls m (CentralClock [0, 1, 2, 3]))"
  let ?c2 = "?c\<lparr>agent_ids := [3, 1, 0, 2], cycle := itertools_cycle [3, 1, 0, 2]\<rparr>"
  have ids: "agent_ids ?c = [0, 1, 2, 3]"
    by (simp add: next_calls_agent_ids CentralClock_def)
  have sh: "shuffle rnd ?c (Some [3, 1, 0, 2]) = Inr ?c2"
    unfolding shuffle_def ids by auto
  have "cycle ?c2 = at_phase [3, 1, 0, 2] 0"
    by (simp add: fresh_cycle_phase)
  from next_calls_at_phase [OF _ this, of 8]
  have "fst (next_calls 8 ?c2) = map Inr [3, 1, 0, 2, 3, 1, 0, 2]"
    by (simp add: upt_8 del: upt_Suc)
  with sh show "\<exists>c2. shuffle rnd ?c (Some [3, 1, 0, 2]) = Inr c2
        \<and> fst (next_calls 8 c2) = map Inr [3, 1, 0, 2, 3, 1, 0, 2]"
    by blast
qed

theorem scheduler_cycle_witness:
  "[0, 1, 2, 3] \<noteq> ([] :: int list)
   \<and> kth_call 5 (CentralClock [0, 1, 2, 3]) = Inr 1
   \<and> agent_ids (CentralClock [0, 1, 2, 3]) \<noteq> []
   \<and> shuffle id (CentralClock [0, 1, 2, 3]) (Some [3, 1, 0, 2])
       = Inr \<lparr>agent_ids = [3, 1, 0, 2], cycle = itertools_cycle [3, 1, 0, 2]\<rparr>
   \<and> kth_call 6 \<lparr>agent_ids = [3, 1, 0, 2], cycle = itertools_cycle [3, 1, 0, 2]\<rparr> = Inr 0
   \<and> rev (agent_ids (CentralClock [0, 1, 2, 3])) \<noteq> []
   \<and> shuffle rev (CentralClock [0, 1, 2, 3]) None
       = Inr \<lparr>agent_ids = [3, 2, 1, 0], cycle = itertools_cycle [3, 2, 1, 0]\<rparr>
   \<and> kth_call 5 \<lparr>agent_ids = [3, 2, 1, 0], cycle = itertools_cycle [3, 2, 1, 0]\<rparr> = Inr 2"
proof -
  have sh: "shuffle id (CentralClock [0, 1, 2, 3]) (Some [3, 1, 0, 2])
      = Inr \<lparr>agent_ids = [3, 1, 0, 2], cycle = itertools_cycle [3, 1, 0, 2]\<rparr>"
    by (auto simp: shuffle_def CentralClock_def)
  have ne: "agent_ids (CentralClock [0, 1, 2, 3]) \<noteq> []"
    by (simp add: CentralClock_def)
  have rv: "rev (agent_ids (CentralClock [0, 1, 2, 3])) = [3, 2, 1, 0]"
    by (simp add: CentralClock_def)
  have rn: "shuffle rev (CentralClock [0, 1, 2, 3]) None
      = Inr \<lparr>agent_ids = [3, 2, 1, 0], cycle = itertools_cycle [3, 2, 1, 0]\<rparr>"
    by (simp add: shuffle_def CentralClock_def Let_def)
  show ?thesis
    using sh ne rv rn scheduler_cycle [where ids = "[0, 1, 2, 3]" and k = 5]
      scheduler_cycle [where k = 6 and c = "CentralClock [0, 1, 2, 3]" and rnd = id
        and order = "[3, 1, 0, 2]"
        and c' = "\<lparr>agent_ids = [3, 1, 0, 2], cycle = itertools_cycle [3, 1, 0, 2]\<rparr>"]
      scheduler_cycle [where k = 5 and c = "CentralClock [0, 1, 2, 3]" and rnd = rev
        and c' = "\<lparr>agent_ids = [3, 2, 1, 0], cycle = itertools_cycle [3, 2, 1, 0]\<rparr>"]
    by simp
qed

text \<open>
  Claim C6, as the specification states it, fails: the assertion of \<^verbatim>\<open>shuffle\<close> compares
  sets, so an order with a duplicate over the same identifiers is accepted. The order
  \<^verbatim>\<open>[0, 0, 1, 2, 3]\<close> against the identifiers \<^verbatim>\<open>[0, 1, 2, 3]\<close> becomes the new base order.
\<close>

theorem shuffle_duplicate_accepted:
  "shuffle id (CentralClock [0, 1, 2, 3]) (Some [0, 0, 1, 2, 3])
     = Inr \<lparr>agent_ids = [0, 0, 1, 2, 3], cycle = itertools_cycle [0, 0, 1, 2, 3]\<rparr>"
  by (auto simp: shuffle_def CentralClock_def)

text \<open>
  Claim C6, amended. \<^verbatim>\<open>shuffle(new_order)\<close> with an explicit order fails with an
  \<open>AssertionError\<close> exactly when the set of the proposed identifiers differs from the set of
  the current ones, that is when the order contains an unknown identifier or misses a
  current one. An order over the same set of identifiers is accepted, duplicates and a
  different length included, and becomes the new base order with a fresh cycle; every
  permutation of the current list is accepted.
\<close>

theorem shuffle_rejects_iff_sets_differ:
  "(shuffle rnd c (Some order) = Inl AssertionError \<longleftrightarrow> set order \<noteq> set (agent_ids c))
   \<and> ((\<exists>x \<in> set order. x \<notin> set (agent_ids c)) \<longrightarrow> shuffle rnd c (Some order) = Inl AssertionError)
   \<and> ((\<exists>x \<in> set (agent_ids c). x \<notin> set order) \<longrightarrow> shuffle rnd c (Some order) = Inl AssertionError)
   \<and> (set order = set (agent_ids c) \<longrightarrow>
        shuffle rnd c (Some order) = Inr (c\<lparr>agent_ids := order, cycle := itertools_cycle order\<rparr>))
   \<and> (mset order = mset (agent_ids c) \<longrightarrow>
        shuffle rnd c (Some order) = Inr (c\<lparr>agent_ids := order, cycle := itertools_cycle order\<rparr>))"
proof -
  have "mset order = mset (agent_ids c) \<Longrightarrow> set order = set (agent_ids c)"
    by (rule mset_eq_setD)
  then show ?thesis
    by (auto simp: shuffle_def)
qed

theorem shuffle_rejects_iff_sets_differ_witness:
  "(\<exists>x \<in> set [0, 1, 2, 4]. x \<notin> set (agent_ids (CentralClock [0, 1, 2, 3])))
   \<and> shuffle id (CentralClock [0, 1, 2, 3]) (Some [0, 1, 2, 4]) = Inl AssertionError
   \<and> (\<exists>x \<in> set (agent_ids (CentralClock [0, 1, 2, 3])). x \<notin> set [0, 1, 2])
   \<and> shuffle id (CentralClock [0, 1, 2, 3]) (Some [0, 1, 2]) = Inl AssertionError
   \<and> mset [2, 0, 3, 1] = mset (agent_ids (CentralClock [0, 1, 2, 3]))
   \<and> set [2, 0, 3, 1] = set (agent_ids (CentralClock [0, 1, 2, 3]))
   \<and> shuffle id (CentralClock [0, 1, 2, 3]) (Some [2, 0, 3, 1])
       = Inr \<lparr>agent_ids = [2, 0, 3, 1], cycle = itertools_cycle [2, 0, 3, 1]\<rparr>"
proof -
  have a: "\<exists>x \<in> set [0, 1, 2, 4]. x \<notin> set (agent_ids (CentralClock [0, 1, 2, 3]))"
    by (simp add: CentralClock_def)
  have b: "\<exists>x \<in> set (agent_ids (CentralClock [0, 1, 2, 3])). x \<notin> set [0, 1, 2 :: int]"
    by (simp add: CentralClock_def)
  have m: "mset [2, 0, 3, 1] = mset (agent_ids (CentralClock [0, 1, 2, 3]))"
    by (simp add: CentralClock_def)
  have s: "set [2, 0, 3, 1] = set (agent_ids (CentralClock [0, 1, 2, 3]))"
    using m by (rule mset_eq_setD)
  show ?thesis
    using a b m s
      shuffle_rejects_iff_sets_differ [of id "CentralClock [0, 1, 2, 3]" "[0, 1, 2, 4]"]
      shuffle_rejects_iff_sets_differ [of id "CentralClock [0, 1, 2, 3]" "[0, 1, 2]"]
      shuffle_rejects_iff_sets_differ [of id "CentralClock [0, 1, 2, 3]" "[2, 0, 3, 1]"]
    by (simp add: CentralClock_def)
qed

section \<open>Proofs: collision detection\<close>

lemma map_of_add_agent:
  "map_of (add_agent p i m) q =
     (if q = p then Some (case map_of m p of None \<Rightarrow> [i] | Some agents \<Rightarrow> agents @ [i])
      else map_of m q)"
  by (induction p i m rule: add_agent.induct) auto

lemma agents_of_add_agent:
  "agents_of (add_agent p i m) q = (if q = p then insert i (agents_of m q) else agents_of m q)"
  by (simp add: agents_of_def map_of_add_agent split: option.splits)

lemma keys_add_agent: "fst ` set (add_agent p i m) = insert p (fst ` set m)"
  by (induction p i m rule: add_agent.induct) auto

lemma distinct_add_agent: "distinct (map fst m) \<Longrightarrow> distinct (map fst (add_agent p i m))"
  by (induction p i m rule: add_agent.induct) (auto simp: keys_add_agent)

lemma agents_of_build:
  "agents_of (build_pos_to_agents xs m) q = agents_of m q \<union> {i. (i, q) \<in> set xs}"
  by (induction xs m rule: build_pos_to_agents.induct) (auto simp: agents_of_add_agent)

lemma distinct_build:
  "distinct (map fst m) \<Longrightarrow> distinct (map fst (build_pos_to_agents xs m))"
  by (induction xs m rule: build_pos_to_agents.induct) (auto simp: distinct_add_agent)

lemma in_enumerate_0: "(i, p) \<in> set (enumerate 0 xs) \<longleftrightarrow> i < length xs \<and> xs ! i = p"
  by (auto simp: in_set_enumerate_eq)

lemma group_entry:
  assumes "(p, agents) \<in> set (build_pos_to_agents (enumerate 0 nps) [])"
  shows "set agents = {i. i < length nps \<and> nps ! i = p}"
proof -
  have "distinct (map fst (build_pos_to_agents (enumerate 0 nps) []))"
    by (simp add: distinct_build)
  with assms have "map_of (build_pos_to_agents (enumerate 0 nps) []) p = Some agents"
    by simp
  then have "agents_of (build_pos_to_agents (enumerate 0 nps) []) p = set agents"
    by (simp add: agents_of_def)
  moreover have "agents_of [] p = {}"
    by (simp add: agents_of_def)
  ultimately show ?thesis
    by (simp add: agents_of_build in_enumerate_0)
qed

lemma group_exists:
  assumes "i < length nps"
  shows "\<exists>agents. (nps ! i, agents) \<in> set (build_pos_to_agents (enumerate 0 nps) [])"
proof -
  have "i \<in> agents_of (build_pos_to_agents (enumerate 0 nps) []) (nps ! i)"
    using assms by (simp add: agents_of_build in_enumerate_0)
  then obtain agents where "map_of (build_pos_to_agents (enumerate 0 nps) []) (nps ! i) = Some agents"
    by (auto simp: agents_of_def split: option.splits)
  then show ?thesis by (blast dest: map_of_SomeD)
qed

lemma scan_group_ok:
  "\<forall>i \<in> set agents. i < length dirs \<Longrightarrow>
   scan_group dirs agents a b =
     Inr (a \<or> (\<exists>i \<in> set agents. dirs ! i = 0), b \<or> (\<exists>i \<in> set agents. dirs ! i \<noteq> 0))"
  by (induction agents arbitrary: a b) auto

lemma check_groups_ok:
  "\<forall>g \<in> set m. \<forall>i \<in> set (snd g). i < length (directions e) \<Longrightarrow>
   check_groups e m C = Inr (C \<union> (\<Union>g \<in> {g \<in> set m. group_collides e g}. set (snd g)))"
proof (induction m arbitrary: C)
  case Nil
  show ?case by simp
next
  case (Cons g m)
  obtain p agents where g: "g = (p, agents)" by (cases g)
  have inr: "\<forall>i \<in> set agents. i < length (directions e)"
    using Cons.prems g by auto
  have rest: "\<forall>g \<in> set m. \<forall>i \<in> set (snd g). i < length (directions e)"
    using Cons.prems by auto
  have sg: "scan_group (directions e) agents False False =
      Inr (\<exists>i \<in> set agents. directions e ! i = 0, \<exists>i \<in> set agents. directions e ! i \<noteq> 0)"
    by (simp add: scan_group_ok [OF inr])
  have U: "(\<Union>g \<in> {g \<in> set ((p, agents) # m). group_collides e g}. set (snd g)) =
      (if group_collides e (p, agents) then set agents else {})
        \<union> (\<Union>g \<in> {g \<in> set m. group_collides e g}. set (snd g))"
    by auto
  show ?case
  proof (cases "group_collides e (p, agents)")
    case True
    then show ?thesis
      unfolding g U by (simp add: Cons.IH [OF rest] sg group_collides_def Un_assoc)
  next
    case False
    then show ?thesis
      unfolding g U by (auto simp: Cons.IH [OF rest] sg group_collides_def)
  qed
qed

lemma group_mem:
  assumes "(p, agents) \<in> set (build_pos_to_agents (enumerate 0 nps) [])"
  shows "i \<in> set agents \<longleftrightarrow> i < length nps \<and> nps ! i = p"
  using group_entry [OF assms] by simp

lemma two_members_length:
  assumes "j \<in> set agents" and "k \<in> set agents" and "j \<noteq> k"
  shows "1 < length agents"
proof -
  have "{j, k} \<subseteq> set agents" using assms by simp
  then have "card {j, k} \<le> card (set agents)" by (simp add: card_mono)
  moreover have "card {j, k} = 2" using assms(3) by simp
  moreover have "card (set agents) \<le> length agents" by (rule card_length)
  ultimately show ?thesis by linarith
qed

lemma detect_collisions_char:
  assumes "length nps \<le> length (directions e)"
  shows "\<exists>C. detect_collisions e nps = Inr C \<and> (\<forall>i. i \<in> C \<longleftrightarrow> head_on e nps i)"
proof -
  let ?m = "build_pos_to_agents (enumerate 0 nps) []"
  have inr: "\<forall>g \<in> set ?m. \<forall>i \<in> set (snd g). i < length (directions e)"
  proof (intro ballI)
    fix g i assume "g \<in> set ?m" and i: "i \<in> set (snd g)"
    then have "(fst g, snd g) \<in> set ?m" by simp
    from group_mem [OF this] i have "i < length nps" by simp
    with assms show "i < length (directions e)" by simp
  qed
  let ?C = "\<Union>g \<in> {g \<in> set ?m. group_collides e g}. set (snd g)"
  have dc: "detect_collisions e nps = Inr ?C"
    by (simp add: detect_collisions_def check_groups_ok [OF inr])
  have "i \<in> ?C \<longleftrightarrow> head_on e nps i" for i
  proof
    assume "i \<in> ?C"
    then obtain g where g: "g \<in> set ?m" "group_collides e g" "i \<in> set (snd g)"
      by blast
    obtain p agents where pa: "g = (p, agents)" by (cases g)
    have in_m: "(p, agents) \<in> set ?m" using g(1) pa by simp
    note mem = group_mem [OF in_m]
    have i: "i < length nps" "nps ! i = p" using g(3) pa mem by simp_all
    from g(2) pa obtain j k where jk: "j \<in> set agents" "directions e ! j = 0"
        "k \<in> set agents" "directions e ! k \<noteq> 0" and sites: "p \<noteq> location_A e" "p \<noteq> location_B e"
      unfolding group_collides_def by auto
    have "j < length nps \<and> nps ! j = nps ! i" using jk(1) mem i by simp
    moreover have "k < length nps \<and> nps ! k = nps ! i" using jk(3) mem i by simp
    ultimately show "head_on e nps i"
      unfolding head_on_def using i sites jk(2,4) by blast
  next
    assume "head_on e nps i"
    then obtain j k where i: "i < length nps" and sites: "nps ! i \<noteq> location_A e" "nps ! i \<noteq> location_B e"
      and j: "j < length nps" "nps ! j = nps ! i" "directions e ! j = 0"
      and k: "k < length nps" "nps ! k = nps ! i" "directions e ! k \<noteq> 0"
      unfolding head_on_def by blast
    from group_exists [OF i] obtain agents where in_m: "(nps ! i, agents) \<in> set ?m"
      by blast
    note mem = group_mem [OF in_m]
    have ji: "j \<in> set agents" and ki: "k \<in> set agents" and ii: "i \<in> set agents"
      using mem i j k by simp_all
    have "j \<noteq> k" using j(3) k(3) by auto
    with ji ki have "1 < length agents" by (rule two_members_length)
    then have "group_collides e (nps ! i, agents)"
      unfolding group_collides_def using sites ji ki j(3) k(3) by auto
    with in_m have "(nps ! i, agents) \<in> {g \<in> set ?m. group_collides e g}" by simp
    moreover have "i \<in> set (snd (nps ! i, agents))" using ii by simp
    ultimately show "i \<in> ?C" by (rule UN_I)
  qed
  with dc show ?thesis by blast
qed

section \<open>Proofs: the update loop\<close>

lemma splice_0: "splice f 0 old = old"
  by (simp add: splice_def)

lemma length_splice: "k \<le> length old \<Longrightarrow> length (splice f k old) = length old"
  by (simp add: splice_def)

lemma splice_nth: "k < length old \<Longrightarrow> splice f k old ! k = old ! k"
  by (simp add: splice_def nth_append)

lemma splice_Suc: "k < length old \<Longrightarrow> splice f (Suc k) old = (splice f k old)[k := f k]"
  by (simp add: splice_def list_update_append upd_conv_take_nth_drop Cons_nth_drop_Suc
      flip: Cons_nth_drop_Suc)

lemma splice_upd_same: "k < length old \<Longrightarrow> (splice f k old)[k := old ! k] = splice f k old"
  using splice_nth [of k old f] list_update_id [of "splice f k old" k] by simp

lemma splice_full: "splice f (length old) old = map f [0..<length old]"
  by (simp add: splice_def)

lemma filter_upt_Suc:
  "length (filter P [0..<Suc k]) = length (filter P [0..<k]) + (if P k then 1 else 0)"
  by simp

lemma update_agent_tick:
  assumes k: "k < n"
    and len: "length (agent_positions e) = n" "length (carrying e) = n" "length (directions e) = n"
      "length nps = n"
  shows "update_agent cs k (nps ! k) (tick_state e cs nps k) (tick_rewards e cs nps k n)
     = (tick_state e cs nps (Suc k), Inr (tick_rewards e cs nps (Suc k) n))"
proof -
  let ?s = "tick_state e cs nps k" and ?r = "tick_rewards e cs nps k n"
  have lens: "k < length (agent_positions ?s)" "k < length (carrying ?s)"
      "k < length (directions ?s)" "k < length ?r"
    using k len by (simp_all add: tick_state_def tick_rewards_def length_splice)
  have vals: "agent_positions ?s ! k = agent_positions e ! k" "carrying ?s ! k = carrying e ! k"
      "directions ?s ! k = directions e ! k" "?r ! k = 0"
    using k len by (simp_all add: tick_state_def tick_rewards_def splice_nth)
  have fixed: "location_A ?s = location_A e" "location_B ?s = location_B e"
      "collision_penalty ?s = collision_penalty e" "delivery_reward ?s = delivery_reward e"
    by (simp_all add: tick_state_def)
  have rew: "tick_rewards e cs nps (Suc k) n = ?r[k := reward_of e cs nps k]"
    using k by (simp add: tick_rewards_def splice_Suc)
  have st: "tick_state e cs nps (Suc k) =
      ?s\<lparr>agent_positions := (agent_positions ?s)[k := new_position e cs nps k],
          carrying := (carrying ?s)[k := new_carrying e cs nps k],
          directions := (directions ?s)[k := new_direction e cs nps k],
          total_collisions := total_collisions ?s + (if k \<in> cs then 1 else 0),
          total_deliveries := total_deliveries ?s
             + (if k \<notin> cs \<and> \<not> picks_up e nps k \<and> delivers e nps k then 1 else 0)\<rparr>"
    using k len by (simp add: tick_state_def splice_Suc)
  have same: "(agent_positions ?s)[k := agent_positions e ! k] = agent_positions ?s"
      "(carrying ?s)[k := carrying e ! k] = carrying ?s"
      "(directions ?s)[k := directions e ! k] = directions ?s"
      "?r[k := 0] = ?r"
    using k len vals lens by (metis list_update_id)+
  have at: "is_at_location_A (?s\<lparr>agent_positions := (agent_positions ?s)[k := nps ! k]\<rparr>) k
        \<longleftrightarrow> nps ! k = location_A e"
      "is_at_location_B (?s\<lparr>agent_positions := (agent_positions ?s)[k := nps ! k]\<rparr>) k
        \<longleftrightarrow> nps ! k = location_B e"
    using lens fixed by (simp_all add: is_at_location_A_def is_at_location_B_def)
  consider (collided) "k \<in> cs"
    | (pickup) "k \<notin> cs" "picks_up e nps k"
    | (delivery) "k \<notin> cs" "\<not> picks_up e nps k" "delivers e nps k"
    | (neither) "k \<notin> cs" "\<not> picks_up e nps k" "\<not> delivers e nps k"
    by blast
  then show ?thesis
  proof cases
    case collided
    then have f: "new_position e cs nps k = agent_positions e ! k"
        "new_carrying e cs nps k = carrying e ! k" "new_direction e cs nps k = directions e ! k"
        "reward_of e cs nps k = collision_penalty e"
      by (simp_all add: new_position_def new_carrying_def new_direction_def reward_of_def)
    show ?thesis
      unfolding st rew f same
      using collided lens vals fixed by (simp add: update_agent_def)
  next
    case pickup
    then have f: "new_position e cs nps k = nps ! k"
        "new_carrying e cs nps k = 1" "new_direction e cs nps k = 0"
        "reward_of e cs nps k = 0"
      by (simp_all add: new_position_def new_carrying_def new_direction_def reward_of_def)
    have c: "nps ! k = location_A e" "directions e ! k = 1"
      using pickup by (simp_all add: picks_up_def)
    show ?thesis
      unfolding st rew f same
      using pickup lens vals fixed c at by (simp add: update_agent_def Let_def)
  next
    case delivery
    then have f: "new_position e cs nps k = nps ! k"
        "new_carrying e cs nps k = 0" "new_direction e cs nps k = 1"
        "reward_of e cs nps k = delivery_reward e"
      by (simp_all add: new_position_def new_carrying_def new_direction_def reward_of_def)
    have c: "nps ! k = location_B e" "directions e ! k = 0" "carrying e ! k = 1"
      using delivery by (simp_all add: delivers_def)
    have nA: "\<not> (nps ! k = location_A e \<and> directions e ! k = 1)"
      using c by simp
    show ?thesis
      unfolding st rew f same
      using delivery lens vals fixed c nA at by (simp add: update_agent_def Let_def)
  next
    case neither
    then have f: "new_position e cs nps k = nps ! k"
        "new_carrying e cs nps k = carrying e ! k" "new_direction e cs nps k = directions e ! k"
        "reward_of e cs nps k = 0"
      by (simp_all add: new_position_def new_carrying_def new_direction_def reward_of_def)
    have nA: "\<not> (nps ! k = location_A e \<and> directions e ! k = 1)"
      and nB: "\<not> (nps ! k = location_B e \<and> directions e ! k = 0 \<and> carrying e ! k = 1)"
      using neither by (simp_all add: picks_up_def delivers_def)
    show ?thesis
      unfolding st rew f same
      using neither lens vals fixed nA nB at by (auto simp: update_agent_def Let_def)
  qed
qed

lemma update_agents_tick:
  assumes len: "length (agent_positions e) = n" "length (carrying e) = n"
      "length (directions e) = n" "length nps = n"
    and k: "k \<le> n"
  shows "update_agents cs (enumerate k (drop k nps)) (tick_state e cs nps k) (tick_rewards e cs nps k n)
     = (tick_state e cs nps n, Inr (tick_rewards e cs nps n n))"
  using k
proof (induction "n - k" arbitrary: k)
  case 0
  then have "k = n" by simp
  then show ?case using len by simp
next
  case (Suc d)
  then have k: "k < n" by simp
  then have dr: "drop k nps = nps ! k # drop (Suc k) nps"
    using len by (simp add: Cons_nth_drop_Suc)
  have "d = n - Suc k" and "Suc k \<le> n" using Suc.hyps(2) k by simp_all
  from Suc.hyps(1) [OF this] show ?case
    unfolding dr by (simp add: update_agent_tick [OF k len])
qed

lemma tick_state_0: "tick_state e cs nps 0 = e"
  by (simp add: tick_state_def splice_0)

lemma tick_rewards_0: "tick_rewards e cs nps 0 n = replicate n 0"
  by (simp add: tick_rewards_def splice_0)

lemma tick_rewards_full: "tick_rewards e cs nps n n = map (reward_of e cs nps) [0..<n]"
  using splice_full [of "reward_of e cs nps" "replicate n 0"] by (simp add: tick_rewards_def)

lemma update_agents_all:
  assumes "length (agent_positions e) = n" "length (carrying e) = n"
      "length (directions e) = n" "length nps = n"
  shows "update_agents cs (enumerate 0 nps) e (replicate n 0)
     = (tick_state e cs nps n, Inr (map (reward_of e cs nps) [0..<n]))"
  using update_agents_tick [OF assms, of 0 cs]
  by (simp add: tick_state_0 tick_rewards_0 tick_rewards_full)

lemma next_positions_pairs:
  "\<forall>x \<in> set xs. fst x < length (agent_positions e) \<Longrightarrow>
   next_positions e xs = Inr (map (\<lambda>x. get_next_position e (agent_positions e ! fst x) (snd x)) xs)"
  by (induction e xs rule: next_positions.induct) simp_all

lemma next_positions_ok:
  assumes "length actions \<le> length (agent_positions e)"
  shows "next_positions e (enumerate 0 actions) = Inr (candidates e actions)"
proof -
  have "\<forall>x \<in> set (enumerate 0 actions). fst x < length (agent_positions e)"
    using assms by (auto simp: in_set_enumerate_eq)
  from next_positions_pairs [OF this]
  have "next_positions e (enumerate 0 actions) =
      Inr (map (\<lambda>x. get_next_position e (agent_positions e ! fst x) (snd x)) (enumerate 0 actions))" .
  moreover have "map (\<lambda>x. get_next_position e (agent_positions e ! fst x) (snd x)) (enumerate 0 actions)
      = candidates e actions"
    by (rule nth_equalityI) (simp_all add: candidates_def nth_enumerate_eq)
  ultimately show ?thesis by simp
qed

lemma get_next_position_steps [simp]:
  "get_next_position (e\<lparr>steps := s\<rparr>) p a = get_next_position e p a"
  by (cases p) (simp add: get_next_position_def)

lemma candidates_steps [simp]: "candidates (e\<lparr>steps := s\<rparr>) actions = candidates e actions"
  by (simp add: candidates_def)

lemma check_groups_steps [simp]: "check_groups (e\<lparr>steps := s\<rparr>) m C = check_groups e m C"
  by (induction e m C rule: check_groups.induct) (simp split: sum.splits prod.splits)+

lemma detect_collisions_steps [simp]:
  "detect_collisions (e\<lparr>steps := s\<rparr>) nps = detect_collisions e nps"
  by (simp add: detect_collisions_def)

lemma length_candidates [simp]: "length (candidates e actions) = length actions"
  by (simp add: candidates_def)

lemma reward_of_steps [simp]: "reward_of (e\<lparr>steps := s\<rparr>) cs nps = reward_of e cs nps"
  by (simp add: reward_of_def fun_eq_iff picks_up_def delivers_def)

lemma step_ok:
  assumes wf: "wf_env e" and len: "int (length actions) = num_agents e"
  shows "\<exists>cs. detect_collisions e (candidates e actions) = Inr cs
      \<and> (\<forall>i. i \<in> cs \<longleftrightarrow> head_on e (candidates e actions) i)
      \<and> step e actions = (after_tick e cs (candidates e actions),
           Inr (map (reward_of e cs (candidates e actions)) [0..<length actions]))"
proof -
  let ?n = "length actions" and ?e1 = "e\<lparr>steps := steps e + 1\<rparr>" and ?nps = "candidates e actions"
  have n: "nat (num_agents e) = ?n" using len by simp
  have lens: "length (agent_positions ?e1) = ?n" "length (carrying ?e1) = ?n"
      "length (directions ?e1) = ?n" "length ?nps = ?n"
    using wf n by (simp_all add: wf_env_def)
  have np: "next_positions ?e1 (enumerate 0 actions) = Inr ?nps"
    using next_positions_ok [of actions ?e1] lens by simp
  have "length ?nps \<le> length (directions e)" using lens by simp
  from detect_collisions_char [OF this] obtain cs
    where cs: "detect_collisions e ?nps = Inr cs" "\<forall>i. i \<in> cs \<longleftrightarrow> head_on e ?nps i"
    by blast
  have up: "update_agents cs (enumerate 0 ?nps) ?e1 (replicate ?n 0)
      = (tick_state ?e1 cs ?nps ?n, Inr (map (reward_of ?e1 cs ?nps) [0..<?n]))"
    by (rule update_agents_all [OF lens])
  have tr: "total_reward (tick_state ?e1 cs ?nps ?n) = total_reward e"
    by (simp add: tick_state_def)
  have "step e actions = (after_tick e cs ?nps, Inr (map (reward_of e cs ?nps) [0..<?n]))"
    using len n np cs(1) up tr by (simp add: step_def Let_def after_tick_def)
  with cs show ?thesis by blast
qed

section \<open>Proofs: the step operation\<close>

lemma example_wf: "wf_env example_env"
  by (simp add: wf_env_def example_env_def)

lemma upt_4: "[0..<4] = [0, 1, 2, 3]"
  by code_simp

lemma example_candidates:
  "candidates example_env [3, 2, 2, 3] = [(1, 1), (1, 1), (0, 0), (4, 4)]"
  by (simp add: candidates_def upt_4 example_env_def get_next_position_def)

lemma example_detect:
  "detect_collisions example_env [(1, 1), (1, 1), (0, 0), (4, 4)] = Inr {0, 1}"
  by (simp add: detect_collisions_def example_env_def) 

lemma replicate_4: "replicate 4 x = [x, x, x, x]"
  by (simp add: numeral_eq_Suc)

lemma example_step:
  "step example_env [3, 2, 2, 3] = (example_after, Inr [- 10, - 10, 0, 1])"
  by (simp add: example_after_def step_def Let_def detect_collisions_def update_agent_def example_env_def
      get_next_position_def is_at_location_A_def is_at_location_B_def replicate_4)

lemma new_position_steps [simp]:
  "new_position (e\<lparr>steps := s\<rparr>) cs nps = new_position e cs nps"
  by (simp add: new_position_def fun_eq_iff)

lemma new_carrying_steps [simp]:
  "new_carrying (e\<lparr>steps := s\<rparr>) cs nps = new_carrying e cs nps"
  by (simp add: new_carrying_def fun_eq_iff picks_up_def delivers_def)

lemma new_direction_steps [simp]:
  "new_direction (e\<lparr>steps := s\<rparr>) cs nps = new_direction e cs nps"
  by (simp add: new_direction_def fun_eq_iff picks_up_def delivers_def)

lemma after_tick_lists:
  assumes "length (agent_positions e) = length nps" "length (carrying e) = length nps"
    "length (directions e) = length nps"
  shows "agent_positions (after_tick e cs nps) = map (new_position e cs nps) [0..<length nps]"
    and "carrying (after_tick e cs nps) = map (new_carrying e cs nps) [0..<length nps]"
    and "directions (after_tick e cs nps) = map (new_direction e cs nps) [0..<length nps]"
  using assms splice_full [of "new_position e cs nps" "agent_positions e"]
    splice_full [of "new_carrying e cs nps" "carrying e"]
    splice_full [of "new_direction e cs nps" "directions e"]
  by (simp_all add: after_tick_def tick_state_def)

lemma after_tick_counters:
  "steps (after_tick e cs nps) = steps e + 1"
  "total_collisions (after_tick e cs nps)
     = total_collisions e + int (length (filter (\<lambda>i. i \<in> cs) [0..<length nps]))"
  "total_deliveries (after_tick e cs nps)
     = total_deliveries e
       + int (length (filter (\<lambda>i. i \<notin> cs \<and> \<not> picks_up e nps i \<and> delivers e nps i) [0..<length nps]))"
  "total_reward (after_tick e cs nps)
     = total_reward e + sum_list (map (reward_of e cs nps) [0..<length nps])"
  by (simp_all add: after_tick_def tick_state_def picks_up_def delivers_def)

lemma after_tick_fixed:
  "grid_size (after_tick e cs nps) = grid_size e"
  "num_agents (after_tick e cs nps) = num_agents e"
  "collision_penalty (after_tick e cs nps) = collision_penalty e"
  "delivery_reward (after_tick e cs nps) = delivery_reward e"
  "location_A (after_tick e cs nps) = location_A e"
  "location_B (after_tick e cs nps) = location_B e"
  by (simp_all add: after_tick_def tick_state_def)

lemma not_both: "\<not> (picks_up e nps i \<and> delivers e nps i)"
  by (simp add: picks_up_def delivers_def)

lemma step_ok_collided:
  assumes wf: "wf_env e" and len: "int (length actions) = num_agents e"
  shows "detect_collisions e (candidates e actions) = Inr (collided e actions)"
    and "i \<in> collided e actions \<longleftrightarrow> head_on e (candidates e actions) i"
    and "step e actions = (after_tick e (collided e actions) (candidates e actions),
           Inr (map (reward_of e (collided e actions) (candidates e actions)) [0..<length actions]))"
proof -
  from step_ok [OF wf len] obtain cs
    where cs: "detect_collisions e (candidates e actions) = Inr cs"
      and mem: "\<forall>i. i \<in> cs \<longleftrightarrow> head_on e (candidates e actions) i"
      and st: "step e actions = (after_tick e cs (candidates e actions),
           Inr (map (reward_of e cs (candidates e actions)) [0..<length actions]))"
    by blast
  have eq: "collided e actions = cs"
    by (simp add: collided_def cs)
  show "detect_collisions e (candidates e actions) = Inr (collided e actions)"
    unfolding eq by (rule cs)
  show "i \<in> collided e actions \<longleftrightarrow> head_on e (candidates e actions) i"
    unfolding eq using mem by simp
  show "step e actions = (after_tick e (collided e actions) (candidates e actions),
           Inr (map (reward_of e (collided e actions) (candidates e actions)) [0..<length actions]))"
    unfolding eq by (rule st)
qed

lemma wf_lengths:
  assumes "wf_env e" and "int (length actions) = num_agents e"
  shows "length (agent_positions e) = length (candidates e actions)"
    "length (carrying e) = length (candidates e actions)"
    "length (directions e) = length (candidates e actions)"
  using assms by (auto simp: wf_env_def)

lemma spec_collided_head_on: "spec_collided e nps i \<longleftrightarrow> head_on e nps i"
proof -
  have a: "list_ex P (group_of nps p) \<longleftrightarrow> (\<exists>j < length nps. nps ! j = p \<and> P j)" for P p
    by (auto simp: group_of_def list_ex_iff)
  have o: "leg_of d = OutboundAtoB \<longleftrightarrow> d = 0" and r: "leg_of d = ReturnBtoA \<longleftrightarrow> d \<noteq> 0" for d
    by (simp_all add: leg_of_def)
  show ?thesis
    by (simp add: spec_collided_def head_on_def a o r)
qed

lemma set_group_of: "set (group_of nps p) = {j. j < length nps \<and> nps ! j = p}"
  by (auto simp: group_of_def)

text \<open>
  Claim C2. With a direction for every candidate position, \<^verbatim>\<open>_detect_collisions\<close> returns
  exactly the set of the agents the rule of the specification marks: agents are grouped by
  identical candidate position, and an agent is collided iff the cell of its group is
  neither site and the group holds an agent on each leg. Hence a group at a site never
  collides, a group of one never collides, a group whose members share a leg never
  collides whatever its size, and in a group elsewhere with both legs every member is
  collided.
\<close>

theorem collision_marking:
  assumes "length next_poss \<le> length (directions e)"
  shows "\<exists>collisions. detect_collisions e next_poss = Inr collisions
      \<and> (\<forall>i. i \<in> collisions \<longleftrightarrow> spec_collided e next_poss i)
      \<and> (\<forall>i < length next_poss.
            next_poss ! i = location_A e \<or> next_poss ! i = location_B e \<longrightarrow> i \<notin> collisions)
      \<and> (\<forall>i < length next_poss. group_of next_poss (next_poss ! i) = [i] \<longrightarrow> i \<notin> collisions)
      \<and> (\<forall>i < length next_poss.
            (\<forall>j \<in> set (group_of next_poss (next_poss ! i)).
               leg_of (directions e ! j) = leg_of (directions e ! i)) \<longrightarrow> i \<notin> collisions)
      \<and> (\<forall>i < length next_poss.
            next_poss ! i \<noteq> location_A e \<and> next_poss ! i \<noteq> location_B e
            \<and> (\<exists>j \<in> set (group_of next_poss (next_poss ! i)). leg_of (directions e ! j) = OutboundAtoB)
            \<and> (\<exists>k \<in> set (group_of next_poss (next_poss ! i)). leg_of (directions e ! k) = ReturnBtoA)
            \<longrightarrow> set (group_of next_poss (next_poss ! i)) \<subseteq> collisions)"
proof -
  from detect_collisions_char [OF assms] obtain cs
    where dc: "detect_collisions e next_poss = Inr cs"
      and mem: "\<And>i. i \<in> cs \<longleftrightarrow> head_on e next_poss i"
    by blast
  have spec: "\<forall>i. i \<in> cs \<longleftrightarrow> spec_collided e next_poss i"
    by (simp add: mem spec_collided_head_on)
  have sites: "\<forall>i < length next_poss.
      next_poss ! i = location_A e \<or> next_poss ! i = location_B e \<longrightarrow> i \<notin> cs"
    by (auto simp: mem head_on_def)
  have single: "\<forall>i < length next_poss. group_of next_poss (next_poss ! i) = [i] \<longrightarrow> i \<notin> cs"
  proof (intro allI impI)
    fix i assume i: "i < length next_poss" and g: "group_of next_poss (next_poss ! i) = [i]"
    have only: "j = i" if "j < length next_poss" "next_poss ! j = next_poss ! i" for j
    proof -
      have "j \<in> set (group_of next_poss (next_poss ! i))"
        using that by (simp add: set_group_of)
      then show ?thesis by (simp add: g)
    qed
    show "i \<notin> cs"
    proof
      assume "i \<in> cs"
      then obtain j k where "j < length next_poss" "next_poss ! j = next_poss ! i"
          "directions e ! j = 0" "k < length next_poss" "next_poss ! k = next_poss ! i"
          "directions e ! k \<noteq> 0"
        unfolding mem head_on_def by blast
      with only [of j] only [of k] show False by simp
    qed
  qed
  have shared: "\<forall>i < length next_poss.
      (\<forall>j \<in> set (group_of next_poss (next_poss ! i)).
         leg_of (directions e ! j) = leg_of (directions e ! i)) \<longrightarrow> i \<notin> cs"
  proof (intro allI impI)
    fix i assume i: "i < length next_poss"
      and same: "\<forall>j \<in> set (group_of next_poss (next_poss ! i)).
         leg_of (directions e ! j) = leg_of (directions e ! i)"
    show "i \<notin> cs"
    proof
      assume "i \<in> cs"
      then obtain j k where j: "j < length next_poss" "next_poss ! j = next_poss ! i"
          "directions e ! j = 0" and k: "k < length next_poss" "next_poss ! k = next_poss ! i"
          "directions e ! k \<noteq> 0"
        unfolding mem head_on_def by blast
      have "leg_of (directions e ! j) = leg_of (directions e ! i)"
        using same j(1,2) by (simp add: set_group_of)
      moreover have "leg_of (directions e ! k) = leg_of (directions e ! i)"
        using same k(1,2) by (simp add: set_group_of)
      ultimately show False using j(3) k(3) by (simp add: leg_of_def)
    qed
  qed
  have mixed: "\<forall>i < length next_poss.
      next_poss ! i \<noteq> location_A e \<and> next_poss ! i \<noteq> location_B e
      \<and> (\<exists>j \<in> set (group_of next_poss (next_poss ! i)). leg_of (directions e ! j) = OutboundAtoB)
      \<and> (\<exists>k \<in> set (group_of next_poss (next_poss ! i)). leg_of (directions e ! k) = ReturnBtoA)
      \<longrightarrow> set (group_of next_poss (next_poss ! i)) \<subseteq> cs"
  proof (intro allI impI subsetI)
    fix i x assume i: "i < length next_poss"
      and h: "next_poss ! i \<noteq> location_A e \<and> next_poss ! i \<noteq> location_B e
      \<and> (\<exists>j \<in> set (group_of next_poss (next_poss ! i)). leg_of (directions e ! j) = OutboundAtoB)
      \<and> (\<exists>k \<in> set (group_of next_poss (next_poss ! i)). leg_of (directions e ! k) = ReturnBtoA)"
      and x: "x \<in> set (group_of next_poss (next_poss ! i))"
    from h obtain j k where j: "j < length next_poss" "next_poss ! j = next_poss ! i"
        "directions e ! j = 0" and k: "k < length next_poss" "next_poss ! k = next_poss ! i"
        "directions e ! k \<noteq> 0"
      by (auto simp: set_group_of leg_of_def split: if_splits)
    have xx: "x < length next_poss" "next_poss ! x = next_poss ! i"
      using x by (simp_all add: set_group_of)
    have "head_on e next_poss x"
      unfolding head_on_def using xx h j k by auto
    then show "x \<in> cs" by (simp add: mem)
  qed
  from dc spec sites single shared mixed show ?thesis by blast
qed

theorem collision_marking_witness:
  "length [(1, 1), (1, 1), (0, 0), (4, 4) :: pos] \<le> length (directions example_env)
   \<and> detect_collisions example_env [(1, 1), (1, 1), (0, 0), (4, 4)] = Inr {0, 1}
   \<and> spec_collided example_env [(1, 1), (1, 1), (0, 0), (4, 4)] 0
   \<and> spec_collided example_env [(1, 1), (1, 1), (0, 0), (4, 4)] 1
   \<and> \<not> spec_collided example_env [(1, 1), (1, 1), (0, 0), (4, 4)] 2
   \<and> \<not> spec_collided example_env [(1, 1), (1, 1), (0, 0), (4, 4)] 3"
proof -
  let ?nps = "[(1, 1), (1, 1), (0, 0), (4, 4) :: pos]"
  have h: "length ?nps \<le> length (directions example_env)"
    by (simp add: example_env_def)
  from collision_marking [OF h] obtain cs
    where dc: "detect_collisions example_env ?nps = Inr cs"
      and mem: "\<And>i. i \<in> cs \<longleftrightarrow> spec_collided example_env ?nps i"
    by blast
  from dc example_detect have cs: "cs = {0, 1}" by simp
  have "spec_collided example_env ?nps 0" "spec_collided example_env ?nps 1"
    "\<not> spec_collided example_env ?nps 2" "\<not> spec_collided example_env ?nps 3"
    using mem [of 0] mem [of 1] mem [of 2] mem [of 3] by (simp_all add: cs)
  with h example_detect show ?thesis by simp
qed

text \<open>
  Claim C7. \<^verbatim>\<open>step(actions)\<close> with \<^verbatim>\<open>len(actions) != num_agents\<close> raises the
  \<open>AssertionError\<close> of its first statement and leaves the environment exactly as it was:
  every field, the step counter included, is unchanged.
\<close>

theorem step_wrong_length:
  assumes "int (length actions) \<noteq> num_agents e"
  shows "step e actions = (e, Inl AssertionError)"
  using assms by (simp add: step_def)

theorem step_wrong_length_witness:
  "int (length [0, 1 :: int]) \<noteq> num_agents example_env
   \<and> step example_env [0, 1] = (example_env, Inl AssertionError)"
proof -
  have h: "int (length [0, 1 :: int]) \<noteq> num_agents example_env"
    by (simp add: example_env_def)
  from step_wrong_length [OF h] h show ?thesis by simp
qed

text \<open>
  Claim C3. In a tick of a well-formed environment with one action per agent, a collided
  agent keeps its position and its reward is the collision penalty; an agent that is not
  collided moves to its candidate position. The candidates and the collided set are those
  the code computes. In particular two agents on opposite legs that target the same cell,
  not a site, are both collided, both stay and both get the penalty.
\<close>

theorem step_collision_effect:
  assumes "wf_env e" and "int (length actions) = num_agents e" and "step e actions = (e1, r)"
  shows "next_positions e (enumerate 0 actions) = Inr (candidates e actions)
      \<and> detect_collisions e (candidates e actions) = Inr (collided e actions)
      \<and> (\<exists>rewards. r = Inr rewards \<and> length rewards = length actions
          \<and> length (agent_positions e1) = length actions
          \<and> (\<forall>i < length actions.
               (i \<in> collided e actions \<longrightarrow>
                  agent_positions e1 ! i = agent_positions e ! i \<and> rewards ! i = collision_penalty e)
               \<and> (i \<notin> collided e actions \<longrightarrow> agent_positions e1 ! i = candidates e actions ! i))
          \<and> (\<forall>i < length actions. \<forall>j < length actions.
               leg_of (directions e ! i) = OutboundAtoB \<and> leg_of (directions e ! j) = ReturnBtoA
               \<and> candidates e actions ! i = candidates e actions ! j
               \<and> candidates e actions ! i \<noteq> location_A e \<and> candidates e actions ! i \<noteq> location_B e
               \<longrightarrow> agent_positions e1 ! i = agent_positions e ! i
                   \<and> agent_positions e1 ! j = agent_positions e ! j
                   \<and> rewards ! i = collision_penalty e \<and> rewards ! j = collision_penalty e))"
proof -
  let ?nps = "candidates e actions" and ?cs = "collided e actions"
  note ok = step_ok_collided [OF assms(1,2)]
  note lens = wf_lengths [OF assms(1,2)]
  have e1: "e1 = after_tick e ?cs ?nps" and r: "r = Inr (map (reward_of e ?cs ?nps) [0..<length actions])"
    using ok(3) assms(3) by simp_all
  have pos: "agent_positions e1 = map (new_position e ?cs ?nps) [0..<length actions]"
    unfolding e1 using after_tick_lists(1) [OF lens] by simp
  have np: "next_positions e (enumerate 0 actions) = Inr ?nps"
    using next_positions_ok [of actions e] lens by simp
  have coll: "agent_positions e1 ! i = agent_positions e ! i
      \<and> map (reward_of e ?cs ?nps) [0..<length actions] ! i = collision_penalty e"
    if "i < length actions" "i \<in> ?cs" for i
    using that by (simp add: pos new_position_def reward_of_def)
  have free: "agent_positions e1 ! i = ?nps ! i" if "i < length actions" "i \<notin> ?cs" for i
    using that by (simp add: pos new_position_def)
  have pair: "i \<in> ?cs \<and> j \<in> ?cs"
    if "i < length actions" "j < length actions"
      "leg_of (directions e ! i) = OutboundAtoB" "leg_of (directions e ! j) = ReturnBtoA"
      "?nps ! i = ?nps ! j" "?nps ! i \<noteq> location_A e" "?nps ! i \<noteq> location_B e" for i j
  proof -
    have di: "directions e ! i = 0"
      using that(3) by (simp add: leg_of_def split: if_splits)
    have dj: "directions e ! j \<noteq> 0"
      using that(4) by (simp add: leg_of_def split: if_splits)
    have n: "i < length ?nps" "j < length ?nps" using that(1,2) by simp_all
    have sj: "?nps ! j = ?nps ! i" "?nps ! j \<noteq> location_A e" "?nps ! j \<noteq> location_B e"
      using that(5,6,7) by simp_all
    have "\<exists>a < length ?nps. ?nps ! a = ?nps ! i \<and> directions e ! a = 0"
      using n(1) di by blast
    moreover have "\<exists>b < length ?nps. ?nps ! b = ?nps ! i \<and> directions e ! b \<noteq> 0"
      using n(2) sj(1) dj by blast
    moreover have "\<exists>a < length ?nps. ?nps ! a = ?nps ! j \<and> directions e ! a = 0"
      using n(1) that(5) di by blast
    moreover have "\<exists>b < length ?nps. ?nps ! b = ?nps ! j \<and> directions e ! b \<noteq> 0"
      using n(2) dj by blast
    ultimately have "head_on e ?nps i" "head_on e ?nps j"
      unfolding head_on_def using n that(6,7) sj(2,3) by simp_all
    then show ?thesis by (simp add: ok(2))
  qed
  let ?rs = "map (reward_of e ?cs ?nps) [0..<length actions]"
  have L1: "length ?rs = length actions" by simp
  have L2: "length (agent_positions e1) = length actions" by (simp add: pos)
  have A: "\<forall>i < length actions.
      (i \<in> ?cs \<longrightarrow> agent_positions e1 ! i = agent_positions e ! i \<and> ?rs ! i = collision_penalty e)
      \<and> (i \<notin> ?cs \<longrightarrow> agent_positions e1 ! i = ?nps ! i)"
    using coll free by blast
  have B: "\<forall>i < length actions. \<forall>j < length actions.
      leg_of (directions e ! i) = OutboundAtoB \<and> leg_of (directions e ! j) = ReturnBtoA
      \<and> ?nps ! i = ?nps ! j \<and> ?nps ! i \<noteq> location_A e \<and> ?nps ! i \<noteq> location_B e
      \<longrightarrow> agent_positions e1 ! i = agent_positions e ! i
          \<and> agent_positions e1 ! j = agent_positions e ! j
          \<and> ?rs ! i = collision_penalty e \<and> ?rs ! j = collision_penalty e"
  proof (intro allI impI)
    fix i j assume i: "i < length actions" and j: "j < length actions"
      and h: "leg_of (directions e ! i) = OutboundAtoB \<and> leg_of (directions e ! j) = ReturnBtoA
      \<and> ?nps ! i = ?nps ! j \<and> ?nps ! i \<noteq> location_A e \<and> ?nps ! i \<noteq> location_B e"
    from h have h1: "leg_of (directions e ! i) = OutboundAtoB"
      and h2: "leg_of (directions e ! j) = ReturnBtoA"
      and h3: "?nps ! i = ?nps ! j" and h4: "?nps ! i \<noteq> location_A e"
      and h5: "?nps ! i \<noteq> location_B e"
      by blast+
    from pair [OF i j h1 h2 h3 h4 h5] have "i \<in> ?cs" "j \<in> ?cs" by blast+
    with coll [OF i] coll [OF j]
    show "agent_positions e1 ! i = agent_positions e ! i
        \<and> agent_positions e1 ! j = agent_positions e ! j
        \<and> ?rs ! i = collision_penalty e \<and> ?rs ! j = collision_penalty e"
      by simp
  qed
  show ?thesis
    by (intro conjI exI [of _ ?rs]) (fact np ok(1) r L1 L2 A B)+
qed

lemma example_length: "int (length [3, 2, 2, 3 :: int]) = num_agents example_env"
  by (simp add: example_env_def)

lemma example_collided: "collided example_env [3, 2, 2, 3] = {0, 1}"
  by (simp add: collided_def example_candidates example_detect)

theorem step_collision_effect_witness:
  "wf_env example_env \<and> int (length [3, 2, 2, 3 :: int]) = num_agents example_env
   \<and> step example_env [3, 2, 2, 3] = (example_after, Inr [- 10, - 10, 0, 1])
   \<and> detect_collisions example_env (candidates example_env [3, 2, 2, 3]) = Inr {0, 1}
   \<and> agent_positions example_after ! 0 = agent_positions example_env ! 0
   \<and> agent_positions example_after ! 1 = agent_positions example_env ! 1
   \<and> agent_positions example_after ! 2 = candidates example_env [3, 2, 2, 3] ! 2
   \<and> agent_positions example_after ! 3 = candidates example_env [3, 2, 2, 3] ! 3"
proof -
  note t = step_collision_effect [OF example_wf example_length example_step]
  from t have "detect_collisions example_env (candidates example_env [3, 2, 2, 3])
      = Inr (collided example_env [3, 2, 2, 3])"
    by blast
  then have "detect_collisions example_env (candidates example_env [3, 2, 2, 3]) = Inr {0, 1}"
    by (simp add: example_collided)
  then show ?thesis
    using example_wf example_length example_step
    by (simp add: example_candidates) (simp add: example_after_def example_env_def)
qed

text \<open>
  Claim C4. In a tick of a well-formed environment with one action per agent, for every
  agent that is not collided: if its new position is site A and its direction before the
  tick is 1 (ReturnBtoA), it ends carrying with direction 0 and reward 0; else if its new
  position is site B, its direction before the tick is 0 (OutboundAtoB) and it carries, it
  ends not carrying with direction 1 and the delivery reward; otherwise its flag, its
  direction and its zero reward are unchanged. The delivery counter grows by one for each
  delivering agent, and no agent meets the pickup and the delivery condition together.
\<close>

theorem step_pickup_delivery:
  assumes "wf_env e" and "int (length actions) = num_agents e" and "step e actions = (e1, r)"
  shows "\<exists>rewards. r = Inr rewards
      \<and> (\<forall>i < length actions. i \<notin> collided e actions \<longrightarrow>
           (if agent_positions e1 ! i = location_A e \<and> directions e ! i = 1
            then carrying e1 ! i = 1 \<and> directions e1 ! i = 0 \<and> rewards ! i = 0
            else if agent_positions e1 ! i = location_B e \<and> directions e ! i = 0
                    \<and> carrying e ! i = 1
            then carrying e1 ! i = 0 \<and> directions e1 ! i = 1 \<and> rewards ! i = delivery_reward e
            else carrying e1 ! i = carrying e ! i \<and> directions e1 ! i = directions e ! i
                 \<and> rewards ! i = 0))
      \<and> total_deliveries e1 = total_deliveries e
           + int (length (filter (\<lambda>i. i \<notin> collided e actions \<and> delivers e (candidates e actions) i)
                    [0..<length actions]))
      \<and> (\<forall>i. \<not> (picks_up e (candidates e actions) i \<and> delivers e (candidates e actions) i))"
proof -
  let ?nps = "candidates e actions" and ?cs = "collided e actions"
  let ?rs = "map (reward_of e ?cs ?nps) [0..<length actions]"
  note ok = step_ok_collided [OF assms(1,2)]
  note lens = wf_lengths [OF assms(1,2)]
  have e1: "e1 = after_tick e ?cs ?nps" and r: "r = Inr ?rs"
    using ok(3) assms(3) by simp_all
  have lists: "agent_positions e1 = map (new_position e ?cs ?nps) [0..<length actions]"
      "carrying e1 = map (new_carrying e ?cs ?nps) [0..<length actions]"
      "directions e1 = map (new_direction e ?cs ?nps) [0..<length actions]"
    unfolding e1 using after_tick_lists [OF lens] by simp_all
  have A: "\<forall>i < length actions. i \<notin> ?cs \<longrightarrow>
           (if agent_positions e1 ! i = location_A e \<and> directions e ! i = 1
            then carrying e1 ! i = 1 \<and> directions e1 ! i = 0 \<and> ?rs ! i = 0
            else if agent_positions e1 ! i = location_B e \<and> directions e ! i = 0
                    \<and> carrying e ! i = 1
            then carrying e1 ! i = 0 \<and> directions e1 ! i = 1 \<and> ?rs ! i = delivery_reward e
            else carrying e1 ! i = carrying e ! i \<and> directions e1 ! i = directions e ! i
                 \<and> ?rs ! i = 0)"
  proof (intro allI impI)
    fix i assume i: "i < length actions" and nc: "i \<notin> ?cs"
    have p: "agent_positions e1 ! i = ?nps ! i"
      using i nc by (simp add: lists new_position_def)
    have v: "carrying e1 ! i = new_carrying e ?cs ?nps i"
        "directions e1 ! i = new_direction e ?cs ?nps i" "?rs ! i = reward_of e ?cs ?nps i"
      using i by (simp_all add: lists)
    show "if agent_positions e1 ! i = location_A e \<and> directions e ! i = 1
            then carrying e1 ! i = 1 \<and> directions e1 ! i = 0 \<and> ?rs ! i = 0
            else if agent_positions e1 ! i = location_B e \<and> directions e ! i = 0
                    \<and> carrying e ! i = 1
            then carrying e1 ! i = 0 \<and> directions e1 ! i = 1 \<and> ?rs ! i = delivery_reward e
            else carrying e1 ! i = carrying e ! i \<and> directions e1 ! i = directions e ! i
                 \<and> ?rs ! i = 0"
      unfolding p v using nc
      by (simp add: new_carrying_def new_direction_def reward_of_def picks_up_def delivers_def)
  qed
  have f: "filter (\<lambda>i. i \<notin> ?cs \<and> \<not> picks_up e ?nps i \<and> delivers e ?nps i) [0..<length ?nps]
      = filter (\<lambda>i. i \<notin> ?cs \<and> delivers e ?nps i) [0..<length actions]"
    using not_both [of e ?nps] by (intro filter_cong) auto
  have B: "total_deliveries e1 = total_deliveries e
           + int (length (filter (\<lambda>i. i \<notin> ?cs \<and> delivers e ?nps i) [0..<length actions]))"
    unfolding e1 after_tick_counters(3) f by simp
  have C: "\<forall>i. \<not> (picks_up e ?nps i \<and> delivers e ?nps i)"
    using not_both by blast
  show ?thesis
    by (intro conjI exI [of _ ?rs]) (fact r A B C)+
qed

theorem step_pickup_delivery_witness:
  "wf_env example_env \<and> int (length [3, 2, 2, 3 :: int]) = num_agents example_env
   \<and> step example_env [3, 2, 2, 3] = (example_after, Inr [- 10, - 10, 0, 1])
   \<and> collided example_env [3, 2, 2, 3] = {0, 1}
   \<and> agent_positions example_after ! 2 = location_A example_env \<and> directions example_env ! 2 = 1
   \<and> carrying example_after ! 2 = 1 \<and> directions example_after ! 2 = 0
   \<and> agent_positions example_after ! 3 = location_B example_env \<and> directions example_env ! 3 = 0
   \<and> carrying example_env ! 3 = 1
   \<and> carrying example_after ! 3 = 0 \<and> directions example_after ! 3 = 1
   \<and> total_deliveries example_after = total_deliveries example_env + 1"
  using step_pickup_delivery [OF example_wf example_length example_step]
    example_wf example_length example_step example_collided
  by (simp add: example_after_def example_env_def)

text \<open>
  Claim C5, as the specification states it, fails: \<^verbatim>\<open>step\<close> never looks at the action codes
  and \<^verbatim>\<open>_get_next_position\<close> has no \<^verbatim>\<open>else\<close> branch. With the code 7 for agent 0 the call
  succeeds: agent 0 stays where it is, agent 3 delivers.
\<close>

theorem step_accepts_code_7:
  "int (length [7, 2, 2, 3 :: int]) = num_agents example_env \<and> (7 :: int) \<notin> {0, 1, 2, 3}
   \<and> snd (step example_env [7, 2, 2, 3]) = Inr [0, 0, 0, 1]
   \<and> agent_positions (fst (step example_env [7, 2, 2, 3])) = [(1, 0), (1, 1), (0, 0), (4, 4)]"
  by (simp add: step_def Let_def detect_collisions_def update_agent_def example_env_def
      get_next_position_def is_at_location_A_def is_at_location_B_def replicate_4)

text \<open>
  Claim C5, amended. On a well-formed environment \<^verbatim>\<open>step\<close> fails exactly when the number
  of actions differs from \<open>num_agents\<close>; with the right number of actions it returns one
  reward per agent whatever the action codes are. A code outside 0..3 is accepted and is a
  no-op: the candidate position of that agent is its current position.
\<close>

theorem step_fails_only_on_length:
  assumes "wf_env e"
  shows "(isl (snd (step e actions)) \<longleftrightarrow> int (length actions) \<noteq> num_agents e)
      \<and> (int (length actions) = num_agents e \<longrightarrow>
           (\<exists>e1 rewards. step e actions = (e1, Inr rewards) \<and> length rewards = length actions))
      \<and> (\<forall>i < length actions. actions ! i \<notin> {0, 1, 2, 3} \<longrightarrow>
            candidates e actions ! i = agent_positions e ! i)
      \<and> (\<forall>p a. a \<notin> {0, 1, 2, 3} \<longrightarrow> get_next_position e p a = p)"
proof -
  have noop: "get_next_position e p a = p" if "a \<notin> {0, 1, 2, 3}" for p a
    using that by (cases p) (simp add: get_next_position_def)
  have ok: "\<exists>e1 rewards. step e actions = (e1, Inr rewards) \<and> length rewards = length actions"
    if len: "int (length actions) = num_agents e"
  proof -
    let ?rs = "map (reward_of e (collided e actions) (candidates e actions)) [0..<length actions]"
    have "step e actions = (after_tick e (collided e actions) (candidates e actions), Inr ?rs)"
      by (rule step_ok_collided(3) [OF assms len])
    moreover have "length ?rs = length actions" by simp
    ultimately show ?thesis by blast
  qed
  have A: "isl (snd (step e actions)) \<longleftrightarrow> int (length actions) \<noteq> num_agents e"
  proof (cases "int (length actions) = num_agents e")
    case True
    with ok obtain e1 rewards where "step e actions = (e1, Inr rewards)" by blast
    with True show ?thesis by simp
  next
    case False
    then show ?thesis by (simp add: step_def)
  qed
  have C: "\<forall>i < length actions. actions ! i \<notin> {0, 1, 2, 3} \<longrightarrow>
            candidates e actions ! i = agent_positions e ! i"
    using noop by (simp add: candidates_def)
  show ?thesis
    using A ok C noop by blast
qed

theorem step_fails_only_on_length_witness:
  "wf_env example_env
   \<and> int (length [7, 2, 2, 3 :: int]) = num_agents example_env
   \<and> \<not> isl (snd (step example_env [7, 2, 2, 3]))
   \<and> [7, 2, 2, 3] ! 0 \<notin> {0, 1, 2, 3 :: int}
   \<and> candidates example_env [7, 2, 2, 3] ! 0 = agent_positions example_env ! 0
   \<and> int (length [7 :: int]) \<noteq> num_agents example_env
   \<and> isl (snd (step example_env [7]))"
proof -
  have a: "int (length [7, 2, 2, 3 :: int]) = num_agents example_env"
    and b: "int (length [7 :: int]) \<noteq> num_agents example_env"
    by (simp_all add: example_env_def)
  have c: "[7, 2, 2, 3] ! 0 \<notin> {0, 1, 2, 3 :: int}" by simp
  show ?thesis
    using step_fails_only_on_length [OF example_wf, of "[7, 2, 2, 3]"]
      step_fails_only_on_length [OF example_wf, of "[7]"] example_wf a b c
    by simp
qed

section \<open>Proofs: the reachable environments\<close>

lemma idle_reset: "reset e draws = Some e1 \<Longrightarrow> idle e1"
  by (auto simp: reset_def idle_def wf_env_def split: list.splits option.splits)

lemma idle_init: "GridWorldEnv gs n cp dr draws = Some e \<Longrightarrow> idle e"
  unfolding GridWorldEnv_def by (rule idle_reset)

lemma map_const_upt: "(\<And>i. i < n \<Longrightarrow> f i = c) \<Longrightarrow> map f [0..<n] = replicate n c"
  by (rule nth_equalityI) simp_all

lemma idle_step:
  assumes idle: "idle e" and len: "int (length actions) = num_agents e"
  shows "collided e actions = {}"
    and "step e actions = (e\<lparr>agent_positions := candidates e actions, steps := steps e + 1\<rparr>,
           Inr (replicate (length actions) 0))"
proof -
  let ?n = "length actions" and ?nps = "candidates e actions"
  have wf: "wf_env e" using idle by (simp add: idle_def)
  have n: "nat (num_agents e) = ?n" using len by simp
  have car: "carrying e = replicate ?n 0" and dir: "directions e = replicate ?n 0"
    and tot: "total_reward e = 0" "total_collisions e = 0" "total_deliveries e = 0"
    using idle n by (simp_all add: idle_def)
  note ok = step_ok_collided [OF wf len]
  note lens = wf_lengths [OF wf len]
  have no: "\<not> head_on e ?nps i" for i
    by (auto simp: head_on_def dir)
  show cs: "collided e actions = {}"
    using ok(2) no by blast
  have np: "\<not> picks_up e ?nps i" and nd: "\<not> delivers e ?nps i" if "i < ?n" for i
    using that by (simp_all add: picks_up_def delivers_def dir car)
  have rs: "map (reward_of e {} ?nps) [0..<?n] = replicate ?n 0"
    by (rule map_const_upt) (simp add: reward_of_def nd)
  have p: "map (new_position e {} ?nps) [0..<?n] = ?nps"
    by (rule nth_equalityI) (simp_all add: new_position_def)
  have c: "map (new_carrying e {} ?nps) [0..<?n] = carrying e"
    by (rule nth_equalityI) (simp_all add: new_carrying_def np nd car)
  have d: "map (new_direction e {} ?nps) [0..<?n] = directions e"
    by (rule nth_equalityI) (simp_all add: new_direction_def np nd dir)
  have f: "filter (\<lambda>i. \<not> picks_up e ?nps i \<and> delivers e ?nps i) [0..<?n] = []"
    by (simp add: filter_empty_conv nd)
  have "after_tick e {} ?nps = e\<lparr>agent_positions := ?nps, steps := steps e + 1\<rparr>"
    using after_tick_lists [OF lens, of "{}"] after_tick_counters [of e "{}" ?nps]
      after_tick_fixed [of e "{}" ?nps]
    by (intro env.equality)
      (simp_all add: p c d f rs tot after_tick_def tick_state_def sum_list_replicate)
  with ok(3) show "step e actions = (e\<lparr>agent_positions := ?nps, steps := steps e + 1\<rparr>,
           Inr (replicate ?n 0))"
    by (simp add: cs rs)
qed

lemma idle_step_any: "idle e \<Longrightarrow> step e actions = (e1, r) \<Longrightarrow> idle e1"
proof (cases "int (length actions) = num_agents e")
  case True
  assume i: "idle e" and s: "step e actions = (e1, r)"
  from idle_step(2) [OF i True] s
  have "e1 = e\<lparr>agent_positions := candidates e actions, steps := steps e + 1\<rparr>" by simp
  with i True show ?thesis by (simp add: idle_def wf_env_def)
next
  case False
  assume i: "idle e" and s: "step e actions = (e1, r)"
  with False have "e1 = e" by (simp add: step_def)
  with i show ?thesis by simp
qed

lemma reachable_idle: "reachable e \<Longrightarrow> idle e"
  by (induction rule: reachable.induct) (auto intro: idle_init idle_reset idle_step_any)

text \<open>
  Claim C1. In every environment reachable from the constructor by \<^verbatim>\<open>reset\<close> and
  \<^verbatim>\<open>step\<close> calls, every agent has \<open>carrying = 0\<close> and direction 0 (OutboundAtoB), and
  \<open>total_reward\<close>, \<open>total_collisions\<close> and \<open>total_deliveries\<close> are 0. A \<^verbatim>\<open>step\<close> call from
  it either fails on the length of the actions and changes nothing, or marks no agent
  collided, returns the reward 0 for every agent and only moves the agents and advances
  the step counter: no pickup, no delivery.
\<close>

theorem reachable_always_outbound:
  assumes "reachable e"
  shows "length (carrying e) = nat (num_agents e) \<and> length (directions e) = nat (num_agents e)
      \<and> (\<forall>i < nat (num_agents e).
            carrying e ! i = 0 \<and> directions e ! i = 0 \<and> leg_of (directions e ! i) = OutboundAtoB)
      \<and> total_reward e = 0 \<and> total_collisions e = 0 \<and> total_deliveries e = 0
      \<and> (\<forall>actions.
            if int (length actions) = num_agents e
            then detect_collisions e (candidates e actions) = Inr {}
               \<and> step e actions
                   = (e\<lparr>agent_positions := candidates e actions, steps := steps e + 1\<rparr>,
                      Inr (replicate (length actions) 0))
            else step e actions = (e, Inl AssertionError))"
proof -
  have i: "idle e" using assms by (rule reachable_idle)
  then have wf: "wf_env e" by (simp add: idle_def)
  have A: "length (carrying e) = nat (num_agents e)" "length (directions e) = nat (num_agents e)"
    using wf by (simp_all add: wf_env_def)
  have B: "\<forall>i < nat (num_agents e).
      carrying e ! i = 0 \<and> directions e ! i = 0 \<and> leg_of (directions e ! i) = OutboundAtoB"
    using i by (simp add: idle_def leg_of_def)
  have C: "total_reward e = 0" "total_collisions e = 0" "total_deliveries e = 0"
    using i by (simp_all add: idle_def)
  have D: "if int (length actions) = num_agents e
      then detect_collisions e (candidates e actions) = Inr {}
         \<and> step e actions
             = (e\<lparr>agent_positions := candidates e actions, steps := steps e + 1\<rparr>,
                Inr (replicate (length actions) 0))
      else step e actions = (e, Inl AssertionError)" for actions
  proof (cases "int (length actions) = num_agents e")
    case True
    from step_ok_collided(1) [OF wf True] idle_step [OF i True] True
    show ?thesis by simp
  next
    case False
    then show ?thesis by (simp add: step_def)
  qed
  show ?thesis
    using A B C D by blast
qed

lemma example_initial_init:
  "GridWorldEnv 5 4 (- 10) 1 [(0, 0), (0, 0), (4, 4)] = Some example_initial"
  by (simp add: GridWorldEnv_def reset_def example_initial_def numeral_eq_Suc)

lemma example_initial_reachable: "reachable example_initial"
proof -
  have "list_all (in_grid 5) [(0, 0), (0, 0), (4, 4)]"
    by (simp add: in_grid_def)
  then show ?thesis
    using example_initial_init by (rule reachable_init)
qed

theorem reachable_always_outbound_witness:
  "reachable example_initial
   \<and> int (length [1, 1, 3, 3 :: int]) = num_agents example_initial
   \<and> step example_initial [1, 1, 3, 3]
       = (example_initial\<lparr>agent_positions := [(1, 0), (1, 0), (0, 1), (0, 1)], steps := 1\<rparr>,
          Inr [0, 0, 0, 0])
   \<and> reachable (example_initial\<lparr>agent_positions := [(1, 0), (1, 0), (0, 1), (0, 1)], steps := 1\<rparr>)
   \<and> int (length [0 :: int]) \<noteq> num_agents example_initial
   \<and> step example_initial [0] = (example_initial, Inl AssertionError)"
proof -
  note t = reachable_always_outbound [OF example_initial_reachable]
  have l: "int (length [1, 1, 3, 3 :: int]) = num_agents example_initial"
    and m: "int (length [0 :: int]) \<noteq> num_agents example_initial"
    by (simp_all add: example_initial_def)
  have c: "candidates example_initial [1, 1, 3, 3] = [(1, 0), (1, 0), (0, 1), (0, 1)]"
    by (simp add: candidates_def upt_4 example_initial_def get_next_position_def)
  from t l have s: "step example_initial [1, 1, 3, 3]
       = (example_initial\<lparr>agent_positions := candidates example_initial [1, 1, 3, 3],
             steps := steps example_initial + 1\<rparr>,
          Inr (replicate (length [1, 1, 3, 3 :: int]) 0))"
    by metis
  then have s1: "step example_initial [1, 1, 3, 3]
       = (example_initial\<lparr>agent_positions := [(1, 0), (1, 0), (0, 1), (0, 1)], steps := 1\<rparr>,
          Inr [0, 0, 0, 0])"
    unfolding c by (simp add: example_initial_def)
  from example_initial_reachable s1
  have r: "reachable (example_initial\<lparr>agent_positions := [(1, 0), (1, 0), (0, 1), (0, 1)], steps := 1\<rparr>)"
    by (rule reachable_step)
  from t m have f: "step example_initial [0] = (example_initial, Inl AssertionError)"
    by metis
  show ?thesis
    using example_initial_reachable l s1 r m f by blast
qed

section \<open>Proofs: the sensor\<close>


lemma mask_loop_length [simp]:
  "length (mask_loop agent_states gs agent_id d xs bits) = length bits"
  by (induction agent_states gs agent_id d xs bits rule: mask_loop.induct) simp_all



lemma length_neighbour_coords [simp]: "length (neighbour_coords p) = 8"
  by (cases "unpack p") (simp add: neighbour_coords_def)










text \<open>
  Claim C9. Whatever the state of a \<^verbatim>\<open>GridWorldEnv\<close>, \<^verbatim>\<open>opp_dir_mask(env, agent_id)\<close>
  raises \<open>AttributeError\<close> at its first statement: the environment has no attribute
  \<^verbatim>\<open>agent_states\<close>. It keeps the agents in the lists \<^verbatim>\<open>agent_positions\<close>, \<^verbatim>\<open>carrying\<close> and
  \<^verbatim>\<open>directions\<close> instead.
\<close>

theorem sensor_fails_on_GridWorldEnv:
  "opp_dir_mask (GridWorldEnv_attrs e) agent_id = Inl AttributeError
   \<and> getattr (GridWorldEnv_attrs e) ''agent_states'' = Inl AttributeError
   \<and> getattr (GridWorldEnv_attrs e) ''agent_positions'' = Inr (PosListAttr (agent_positions e))
   \<and> getattr (GridWorldEnv_attrs e) ''carrying'' = Inr (IntListAttr (carrying e))
   \<and> getattr (GridWorldEnv_attrs e) ''directions'' = Inr (IntListAttr (directions e))"
  by (simp add: opp_dir_mask_def getattr_def GridWorldEnv_attrs_def)

theorem sensor_fails_on_GridWorldEnv_witness:
  "reachable example_initial
   \<and> opp_dir_mask (GridWorldEnv_attrs example_initial) 0 = Inl AttributeError"
  using sensor_fails_on_GridWorldEnv [of example_initial 0] example_initial_reachable by simp

end
